theory Spec2Isabelle
  imports Complex_Main "HOL-Library.Extended_Nat" "HOL-Library.Multiset"
begin

section \<open>The lorry calculator: data model\<close>

text \<open>
  The calculator works on JavaScript numbers. They are modelled as exact reals: rounding,
  overflow and NaN of IEEE doubles are outside the model. The one non-finite value the
  code produces on purpose, \<^verbatim>\<open>Infinity\<close> for the fleet size of an infeasible plan, is the
  \<open>\<infinity>\<close> of \<^typ>\<open>enat\<close>. Optional result fields are \<^typ>\<open>real option\<close>, with
  \<open>None\<close> for an absent (\<^verbatim>\<open>undefined\<close>) field.

  So the ceiling of line 62 and the comparisons with the deadline (lines 84 and 120) are
  decided here on exact quotients and sums. Where a rounded quotient or sum of the code
  lies on the other side of an integer or of the deadline, the code's trip count or fleet
  size differs from the model's. The theorems below are theorems of this exact model. None
  of them states the value of such a quotient or the outcome of one such comparison: they
  relate the results to the decisions the loops take.
\<close>

record CalculatorInputs =
  material :: real
  distance :: real
  time :: real
  loadTime :: real
  startTime :: string
  pricePerTonne :: real
  costPerLorry :: real

record AdvancedSettings =
  lorryCapacity :: real
  avgSpeed :: real
  tipTime :: real

record CalculationResult =
  lorriesNeeded :: enat
  totalTripsNeeded :: int
  timePerTrip :: real
  tripsPerLorry :: real
  totalValue :: real
  totalCost :: real
  achievableMaterial :: "real option"
  achievableValue :: "real option"
  requiredTime :: "real option"

text \<open>The three durations every dispatch loop reads, in hours.\<close>

record Hours =
  loadTimeHours :: real
  travelTimeHours :: real
  tipTimeHours :: real

section \<open>Choosing the next lorry\<close>

text \<open>
  \<^verbatim>\<open>Math.min(...xs)\<close>. With no argument JavaScript returns \<^verbatim>\<open>Infinity\<close>, which is
  \<open>None\<close> here.
\<close>

fun Math_min :: "real list \<Rightarrow> real option" where
  "Math_min [] = None"
| "Math_min (x # xs) = (case Math_min xs of None \<Rightarrow> Some x | Some m \<Rightarrow> Some (min x m))"

text \<open>\<^verbatim>\<open>xs.indexOf(v)\<close>: the first position holding \<open>v\<close>; \<open>None\<close> is JavaScript's \<open>-1\<close>.\<close>

fun indexOf :: "real list \<Rightarrow> real \<Rightarrow> nat option" where
  "indexOf [] v = None"
| "indexOf (x # xs) v = (if x = v then Some 0 else map_option Suc (indexOf xs v))"

text \<open>
  The locals of one pass through a dispatch loop body: the lorry chosen and the loading
  interval it is given.
\<close>

record Dispatch =
  earliestLorryIdx :: nat
  loadStartTime :: real
  loadEndTime :: real

text \<open>
  The head of every dispatch loop body of the solver (lines 78-82, 115-118 and 133-136 of
  the source are the same statements). For an empty array the source computes
  \<^verbatim>\<open>Infinity\<close> as the load end; that is \<open>None\<close>. When \<open>indexOf\<close> finds nothing the source
  goes on with index \<open>-1\<close>, which names no array element; the model keeps an index beyond
  the array, where a list update changes nothing either.
\<close>

definition nextTrip :: "Hours \<Rightarrow> real list \<Rightarrow> real \<Rightarrow> Dispatch option" where
  "nextTrip h lorriesNextAvailableTime loadingBayFreeAt =
     (case Math_min lorriesNextAvailableTime of
        None \<Rightarrow> None
      | Some earliestLorryTime \<Rightarrow>
          (let idx = (case indexOf lorriesNextAvailableTime earliestLorryTime of
                        None \<Rightarrow> length lorriesNextAvailableTime
                      | Some i \<Rightarrow> i);
               loadStart = max earliestLorryTime loadingBayFreeAt;
               loadEnd = loadStart + loadTimeHours h
           in Some \<lparr>earliestLorryIdx = idx, loadStartTime = loadStart, loadEndTime = loadEnd\<rparr>))"

text \<open>
  \<^verbatim>\<open>lorryReturnTime = loadEndTime + travelTimeHours + tipTimeHours + travelTimeHours\<close>,
  stored at the chosen index.
\<close>

definition lorryReturnTime :: "Hours \<Rightarrow> Dispatch \<Rightarrow> real" where
  "lorryReturnTime h d = loadEndTime d + travelTimeHours h + tipTimeHours h + travelTimeHours h"

definition sendLorry :: "Hours \<Rightarrow> Dispatch \<Rightarrow> real list \<Rightarrow> real list" where
  "sendLorry h d lorriesNextAvailableTime =
     lorriesNextAvailableTime[earliestLorryIdx d := lorryReturnTime h d]"

section \<open>The feasibility solver\<close>

text \<open>
  The inner loop of the fleet-size search (lines 77-93), for the trips that are left: the
  value is the flag \<^verbatim>\<open>possible\<close>. The loop body does not read the counter \<open>i\<close>, so
  the recursion is on the number of trips still to dispatch.
\<close>

fun tripsPossible :: "Hours \<Rightarrow> real \<Rightarrow> nat \<Rightarrow> real list \<Rightarrow> real \<Rightarrow> bool" where
  "tripsPossible h window 0 lorries bay = True"
| "tripsPossible h window (Suc k) lorries bay =
     (case nextTrip h lorries bay of
        None \<Rightarrow> False
      | Some d \<Rightarrow>
          if loadEndTime d > window + 0.0001 then False
          else tripsPossible h window k (sendLorry h d lorries) (loadEndTime d))"

text \<open>
  One candidate fleet size (lines 73-93): \<^verbatim>\<open>new Array(numLorries).fill(0)\<close>, the bay free
  at 0, and the inner loop over \<open>totalTripsNeeded\<close> trips (none when that is not positive).
\<close>

definition possible :: "Hours \<Rightarrow> real \<Rightarrow> int \<Rightarrow> nat \<Rightarrow> bool" where
  "possible h window totalTrips numLorries =
     tripsPossible h window (nat totalTrips) (replicate numLorries 0) 0"

text \<open>
  The outer loop (lines 69-99): candidates from \<open>numLorries\<close> up to \<open>maxLorriesToTest\<close>, the
  first success returned, \<^verbatim>\<open>Infinity\<close> when there is none.
\<close>

function searchLorries :: "Hours \<Rightarrow> real \<Rightarrow> int \<Rightarrow> nat \<Rightarrow> nat \<Rightarrow> enat" where
  "searchLorries h window totalTrips maxLorriesToTest numLorries =
     (if numLorries \<le> maxLorriesToTest then
        (if possible h window totalTrips numLorries then enat numLorries
         else searchLorries h window totalTrips maxLorriesToTest (Suc numLorries))
      else \<infinity>)"
  by pat_completeness auto
termination
  by (relation "measure (\<lambda>(h, window, totalTrips, maxLorriesToTest, numLorries).
        Suc maxLorriesToTest - numLorries)") auto

declare searchLorries.simps [simp del]

text \<open>
  The admission loop of the infeasible branch (lines 112-126), \<^verbatim>\<open>while (true)\<close> with
  its \<^verbatim>\<open>break\<close>: the value is \<open>achievableTrips\<close> when the loop is left, and \<open>None\<close> when
  it never is.
\<close>

partial_function (option) achievableLoop ::
  "Hours \<Rightarrow> real \<Rightarrow> real list \<Rightarrow> real \<Rightarrow> nat \<Rightarrow> nat option" where
  "achievableLoop h window lorries bay achievableTrips =
     (case nextTrip h lorries bay of
        None \<Rightarrow> Some achievableTrips
      | Some d \<Rightarrow>
          if loadEndTime d > window + 0.0001 then Some achievableTrips
          else achievableLoop h window (sendLorry h d lorries) (loadEndTime d)
                 (achievableTrips + 1))"

declare achievableLoop.simps [code]

text \<open>
  The required-time loop (lines 129-145): the same dispatch with no deadline, keeping the
  load end of the last trip. With an empty array the source would carry \<^verbatim>\<open>Infinity\<close>;
  the loop is only entered with \<open>maxLorriesToTest \<ge> 50\<close> lorries, and the model leaves
  its \<open>requiredTime\<close> (here \<open>required\<close>) as it is there.
\<close>

function requiredLoop :: "Hours \<Rightarrow> int \<Rightarrow> int \<Rightarrow> real list \<Rightarrow> real \<Rightarrow> real \<Rightarrow> real" where
  "requiredLoop h totalTrips i lorries bay required =
     (if i < totalTrips then
        (case nextTrip h lorries bay of
           None \<Rightarrow> required
         | Some d \<Rightarrow>
             requiredLoop h totalTrips (i + 1) (sendLorry h d lorries) (loadEndTime d)
               (if i = totalTrips - 1 then loadEndTime d else required))
      else required)"
  by pat_completeness auto
termination
  by (relation "measure (\<lambda>(h, totalTrips, i, lorries, bay, required).
        nat (totalTrips - i))") auto

declare requiredLoop.simps [simp del]

text \<open>
  The load end of trip \<open>j\<close> (counted from 1) when \<open>numLorries\<close> lorries are dispatched with
  no deadline: what the required-time loop keeps when it runs for \<open>j\<close> trips.
\<close>

definition loadEndOfTrip :: "Hours \<Rightarrow> nat \<Rightarrow> nat \<Rightarrow> real" where
  "loadEndOfTrip h numLorries j = requiredLoop h (int j) 0 (replicate numLorries 0) 0 0"

text \<open>
  \<^verbatim>\<open>calculationResult\<close> (lines 54-162). \<open>None\<close> stands for a call that does not return.
\<close>

definition hoursOf :: "CalculatorInputs \<Rightarrow> AdvancedSettings \<Rightarrow> Hours" where
  "hoursOf inputs adv =
     \<lparr>loadTimeHours = loadTime inputs / 60,
      travelTimeHours = distance inputs / avgSpeed adv,
      tipTimeHours = tipTime adv / 60\<rparr>"

definition tripsNeeded :: "CalculatorInputs \<Rightarrow> AdvancedSettings \<Rightarrow> int" where
  "tripsNeeded inputs adv = \<lceil>material inputs / lorryCapacity adv\<rceil>"

definition maxLorriesToTest :: "CalculatorInputs \<Rightarrow> AdvancedSettings \<Rightarrow> nat" where
  "maxLorriesToTest inputs adv = nat (max 50 (tripsNeeded inputs adv))"

definition degenerate :: "CalculatorInputs \<Rightarrow> AdvancedSettings \<Rightarrow> bool" where
  "degenerate inputs adv \<longleftrightarrow>
     lorryCapacity adv \<le> 0 \<or> avgSpeed adv \<le> 0 \<or> time inputs \<le> 0 \<or> loadTime inputs \<le> 0"

definition calculationResult ::
  "CalculatorInputs \<Rightarrow> AdvancedSettings \<Rightarrow> CalculationResult option" where
  "calculationResult inputs adv =
     (if degenerate inputs adv then
        Some \<lparr>lorriesNeeded = 0, totalTripsNeeded = 0, timePerTrip = 0, tripsPerLorry = 0,
              totalValue = 0, totalCost = 0, achievableMaterial = Some 0,
              achievableValue = Some 0, requiredTime = None\<rparr>
      else
        (let h = hoursOf inputs adv;
             total = tripsNeeded inputs adv;
             roundTripTimeHours = travelTimeHours h * 2;
             perTrip = roundTripTimeHours + loadTimeHours h + tipTimeHours h;
             maxLorries = maxLorriesToTest inputs adv
         in case searchLorries h (time inputs) total maxLorries 1 of
              enat n \<Rightarrow>
                Some \<lparr>lorriesNeeded = enat n, totalTripsNeeded = total, timePerTrip = perTrip,
                      tripsPerLorry = (if n > 0 then of_int total / of_nat n else 0),
                      totalValue = material inputs * pricePerTonne inputs,
                      totalCost = of_nat n * costPerLorry inputs,
                      achievableMaterial = None, achievableValue = None,
                      requiredTime = None\<rparr>
            | \<infinity> \<Rightarrow>
                (case achievableLoop h (time inputs) (replicate maxLorries 0) 0 0 of
                   None \<Rightarrow> None
                 | Some achievableTrips \<Rightarrow>
                     (let requiredT = requiredLoop h total 0 (replicate maxLorries 0) 0 0;
                          achievable = of_nat achievableTrips * lorryCapacity adv
                      in Some \<lparr>lorriesNeeded = \<infinity>, totalTripsNeeded = total,
                               timePerTrip = perTrip, tripsPerLorry = 0,
                               totalValue = material inputs * pricePerTonne inputs,
                               totalCost = 0,
                               achievableMaterial = Some achievable,
                               achievableValue = Some (achievable * pricePerTonne inputs),
                               requiredTime =
                                 (if requiredT > time inputs then Some requiredT else None)\<rparr>))))"

text \<open>
  The dispatch decisions of the inner loop, one entry for each trip it dispatched, in
  order: the values \<open>earliestLorryIdx\<close>, \<open>loadStartTime\<close> and \<open>loadEndTime\<close> take in the
  passes of \<open>tripsPossible\<close> that reach line 89. The source keeps none of them; the
  log is what a trace of the loop would print.
\<close>

fun tripsLog :: "Hours \<Rightarrow> real \<Rightarrow> nat \<Rightarrow> real list \<Rightarrow> real \<Rightarrow> Dispatch list" where
  "tripsLog h window 0 lorries bay = []"
| "tripsLog h window (Suc k) lorries bay =
     (case nextTrip h lorries bay of
        None \<Rightarrow> []
      | Some d \<Rightarrow>
          if loadEndTime d > window + 0.0001 then []
          else d # tripsLog h window k (sendLorry h d lorries) (loadEndTime d))"

section \<open>The schedule builder of the Gantt chart\<close>

datatype PhaseType = loading | travel | tipping

record TripPhase =
  start :: real
  "end" :: real
  type :: PhaseType

text \<open>
  \<open>LorrySchedule\<close> is the interface of the source (its field \<open>id\<close> is \<open>id_lorry\<close> here);
  the objects of the loop carry \<open>nextAvailableTime\<close> as well.
\<close>

record LorrySchedule =
  id_lorry :: nat
  trips :: "TripPhase list list"

record Lorry = LorrySchedule +
  nextAvailableTime :: real

record GanttData =
  schedules :: "LorrySchedule list"
  maxTime :: real

text \<open>\<^verbatim>\<open>xs.findIndex(p)\<close>; \<open>None\<close> is JavaScript's \<open>-1\<close>.\<close>

fun findIndex :: "('a \<Rightarrow> bool) \<Rightarrow> 'a list \<Rightarrow> nat option" where
  "findIndex p [] = None"
| "findIndex p (x # xs) = (if p x then Some 0 else map_option Suc (findIndex p xs))"

text \<open>
  The head of the schedule loop body (lines 64-70): the lorry chosen, \<open>tripStartTime\<close> and
  \<open>loadEnd\<close>. When \<open>findIndex\<close> finds nothing, \<^verbatim>\<open>lorries[-1]\<close> is \<^verbatim>\<open>undefined\<close> and reading
  its \<open>nextAvailableTime\<close> throws a TypeError: that is \<open>None\<close>. It is what happens for an
  empty array, whose minimum is \<^verbatim>\<open>Infinity\<close>.
\<close>

definition scheduleChoice :: "Hours \<Rightarrow> Lorry list \<Rightarrow> real \<Rightarrow> Dispatch option" where
  "scheduleChoice h lorries loadingBayFreeAt =
     (case Math_min (map nextAvailableTime lorries) of
        None \<Rightarrow> None
      | Some earliestLorryTime \<Rightarrow>
          (case findIndex (\<lambda>l. nextAvailableTime l = earliestLorryTime) lorries of
             None \<Rightarrow> None
           | Some idx \<Rightarrow>
               (let nextAvailableLorry = lorries ! idx;
                    tripStartTime = max (nextAvailableTime nextAvailableLorry) loadingBayFreeAt;
                    loadEnd = tripStartTime + loadTimeHours h
                in Some \<lparr>earliestLorryIdx = idx, loadStartTime = tripStartTime,
                          loadEndTime = loadEnd\<rparr>)))"

text \<open>The four phases of a trip that starts loading at \<open>tripStartTime\<close> (lines 70-80).\<close>

definition tripPhases :: "Hours \<Rightarrow> real \<Rightarrow> TripPhase list" where
  "tripPhases h tripStartTime =
     (let loadEnd = tripStartTime + loadTimeHours h;
          travelToTipEnd = loadEnd + travelTimeHours h;
          tipEnd = travelToTipEnd + tipTimeHours h;
          tripEndTime = tipEnd + travelTimeHours h
      in [\<lparr>start = tripStartTime, end = loadEnd, type = loading\<rparr>,
          \<lparr>start = loadEnd, end = travelToTipEnd, type = travel\<rparr>,
          \<lparr>start = travelToTipEnd, end = tipEnd, type = tipping\<rparr>,
          \<lparr>start = tipEnd, end = tripEndTime, type = travel\<rparr>])"

text \<open>
  One pass through the schedule loop (lines 64-83): the new array of lorries and the new
  \<open>loadingBayFreeAt\<close>. The trip pushed is the four phases from \<open>tripStartTime\<close>;
  \<open>tripEndTime\<close> is the end of the fourth, and \<open>loadEnd\<close> the load end of the choice.
\<close>

definition scheduleTrip :: "Hours \<Rightarrow> Lorry list \<Rightarrow> real \<Rightarrow> (Lorry list \<times> real) option" where
  "scheduleTrip h lorries loadingBayFreeAt =
     (case scheduleChoice h lorries loadingBayFreeAt of
        None \<Rightarrow> None
      | Some d \<Rightarrow>
          (let nextAvailableLorry = lorries ! earliestLorryIdx d;
               phases = tripPhases h (loadStartTime d);
               tripEndTime = end (last phases)
           in Some (lorries[earliestLorryIdx d :=
                      nextAvailableLorry\<lparr>trips := trips nextAvailableLorry @ [phases],
                                          nextAvailableTime := tripEndTime\<rparr>],
                    loadEndTime d)))"

fun scheduleTrips :: "Hours \<Rightarrow> nat \<Rightarrow> Lorry list \<Rightarrow> real \<Rightarrow> Lorry list option" where
  "scheduleTrips h 0 lorries bay = Some lorries"
| "scheduleTrips h (Suc k) lorries bay =
     (case scheduleTrip h lorries bay of
        None \<Rightarrow> None
      | Some (lorries', bay') \<Rightarrow> scheduleTrips h k lorries' bay')"

text \<open>The decisions of the schedule loop, in order, as \<open>tripsLog\<close> has them for the solver.\<close>

fun scheduleLog :: "Hours \<Rightarrow> nat \<Rightarrow> Lorry list \<Rightarrow> real \<Rightarrow> Dispatch list" where
  "scheduleLog h 0 lorries bay = []"
| "scheduleLog h (Suc k) lorries bay =
     (case scheduleChoice h lorries bay of
        None \<Rightarrow> []
      | Some d \<Rightarrow>
          (case scheduleTrip h lorries bay of
             None \<Rightarrow> []
           | Some (lorries', bay') \<Rightarrow> d # scheduleLog h k lorries' bay'))"

text \<open>Lines 87-94: the last trip of a lorry loses its last phase when that is a travel phase.\<close>

definition dropFinalReturn :: "Lorry \<Rightarrow> Lorry" where
  "dropFinalReturn lorry =
     (if length (trips lorry) > 0 then
        (let lastTrip = last (trips lorry)
         in if length lastTrip > 0 \<and> type (last lastTrip) = travel
            then lorry\<lparr>trips := butlast (trips lorry) @ [butlast lastTrip]\<rparr>
            else lorry)
      else lorry)"

text \<open>Lines 97-106: the latest phase end, or the window when that is later.\<close>

definition calculatedMaxTime :: "real \<Rightarrow> Lorry list \<Rightarrow> real" where
  "calculatedMaxTime window lorries =
     fold (\<lambda>lorry. fold (\<lambda>trip. fold (\<lambda>phase m. if end phase > m then end phase else m) trip)
                      (trips lorry))
          lorries window"

text \<open>
  Lines 55-59: \<^verbatim>\<open>Array.from({ length: lorriesNeeded }, ...)\<close>, the lorries numbered from 1,
  with no trips, available at \<open>simulationStartTime = 0\<close>.
\<close>

definition lorriesAtStart :: "nat \<Rightarrow> Lorry list" where
  "lorriesAtStart n =
     map (\<lambda>i. \<lparr>id_lorry = i + 1, trips = [], nextAvailableTime = 0\<rparr>) [0..<n]"

text \<open>
  The memo of \<^verbatim>\<open>GanttChart\<close> that builds \<open>schedules\<close> and \<open>maxTime\<close> (lines 40-113).
  \<open>None\<close> is a TypeError out of the loop. The hours are those of the solver
  (\<open>hoursOf\<close>: lines 49-51 repeat lines 63, 65 and 66 of the solver).
\<close>

definition ganttChart ::
  "CalculatorInputs \<Rightarrow> CalculationResult \<Rightarrow> AdvancedSettings \<Rightarrow> GanttData option" where
  "ganttChart inputs result adv =
     (case lorriesNeeded result of
        \<infinity> \<Rightarrow> Some \<lparr>schedules = [], maxTime = time inputs\<rparr>
      | enat n \<Rightarrow>
          if n \<le> 0 then Some \<lparr>schedules = [], maxTime = time inputs\<rparr>
          else
            (let h = hoursOf inputs adv;
                 lorries = lorriesAtStart n
             in case scheduleTrips h (nat (totalTripsNeeded result)) lorries 0 of
                  None \<Rightarrow> None
                | Some dispatched \<Rightarrow>
                    (let trimmed = map dropFinalReturn dispatched;
                         finalSchedules = sort_key id_lorry (map LorrySchedule.truncate trimmed)
                     in Some \<lparr>schedules = finalSchedules,
                              maxTime = of_int \<lceil>calculatedMaxTime (time inputs) trimmed\<rceil>\<rparr>)))"

section \<open>Notions used in the proofs\<close>

text \<open>The number of lorries of a fleet that are available by time \<open>t\<close>.\<close>

definition ready :: "real \<Rightarrow> real list \<Rightarrow> nat" where
  "ready t xs = length (filter (\<lambda>x. x \<le> t) xs)"

text \<open>
  The trips a log gives to the lorry at index \<open>j\<close>, each with its four phases; and a list of
  trips after the last phase of its last trip is taken away.
\<close>

definition tripsOfLorry :: "Hours \<Rightarrow> nat \<Rightarrow> Dispatch list \<Rightarrow> TripPhase list list" where
  "tripsOfLorry h j ds =
     map (\<lambda>d. tripPhases h (loadStartTime d)) (filter (\<lambda>d. earliestLorryIdx d = j) ds)"

definition withoutFinalPhase :: "TripPhase list list \<Rightarrow> TripPhase list list" where
  "withoutFinalPhase ts = (if ts = [] then [] else butlast ts @ [butlast (last ts)])"

text \<open>
  The log of the solver's attempt with \<open>n\<close> lorries, and the log of the schedule builder
  when it is given a result and builds for \<open>n\<close> lorries.
\<close>

definition solverLog :: "CalculatorInputs \<Rightarrow> AdvancedSettings \<Rightarrow> nat \<Rightarrow> Dispatch list" where
  "solverLog inputs adv n =
     tripsLog (hoursOf inputs adv) (time inputs) (nat (tripsNeeded inputs adv)) (replicate n 0) 0"

definition builderLog ::
  "CalculatorInputs \<Rightarrow> CalculationResult \<Rightarrow> AdvancedSettings \<Rightarrow> nat \<Rightarrow> Dispatch list" where
  "builderLog inputs result adv n =
     scheduleLog (hoursOf inputs adv) (nat (totalTripsNeeded result)) (lorriesAtStart n) 0"

text \<open>All loading phases of a list of schedules, lorry by lorry and trip by trip.\<close>

definition loadingPhases :: "LorrySchedule list \<Rightarrow> TripPhase list" where
  "loadingPhases ss =
     concat (map (\<lambda>s. concat (map (filter (\<lambda>p. type p = loading)) (trips s))) ss)"

section \<open>Scenarios\<close>

text \<open>The default settings of the application, and its default job (scenario A of the specification).\<close>

definition defaultSettings :: AdvancedSettings where
  "defaultSettings = \<lparr>lorryCapacity = 20, avgSpeed = 31, tipTime = 5\<rparr>"

definition scenarioA :: CalculatorInputs where
  "scenarioA = \<lparr>material = 300, distance = 20, time = 3, loadTime = 10,
     startTime = ''08:00'', pricePerTonne = 15, costPerLorry = 600\<rparr>"

text \<open>What the solver returns for scenario A.\<close>

definition resultA :: CalculationResult where
  "resultA = \<lparr>lorriesNeeded = 8, totalTripsNeeded = 15, timePerTrip = 191 / 124,
     tripsPerLorry = 15 / 8, totalValue = 4500, totalCost = 4800,
     achievableMaterial = None, achievableValue = None, requiredTime = None\<rparr>"

definition hoursA :: Hours where
  "hoursA = \<lparr>loadTimeHours = 1 / 6, travelTimeHours = 20 / 31, tipTimeHours = 1 / 12\<rparr>"

text \<open>
  The log of the solver's successful attempt for scenario A (8 lorries, 15 trips), and
  the schedule the builder returns for it.
\<close>

definition logA :: "Dispatch list" where
  "logA =
    [\<lparr>earliestLorryIdx = 0, loadStartTime = 0, loadEndTime = 1 / 6\<rparr>,
     \<lparr>earliestLorryIdx = 1, loadStartTime = 1 / 6, loadEndTime = 1 / 3\<rparr>,
     \<lparr>earliestLorryIdx = 2, loadStartTime = 1 / 3, loadEndTime = 1 / 2\<rparr>,
     \<lparr>earliestLorryIdx = 3, loadStartTime = 1 / 2, loadEndTime = 2 / 3\<rparr>,
     \<lparr>earliestLorryIdx = 4, loadStartTime = 2 / 3, loadEndTime = 5 / 6\<rparr>,
     \<lparr>earliestLorryIdx = 5, loadStartTime = 5 / 6, loadEndTime = 1\<rparr>,
     \<lparr>earliestLorryIdx = 6, loadStartTime = 1, loadEndTime = 7 / 6\<rparr>,
     \<lparr>earliestLorryIdx = 7, loadStartTime = 7 / 6, loadEndTime = 4 / 3\<rparr>,
     \<lparr>earliestLorryIdx = 0, loadStartTime = 191 / 124, loadEndTime = 635 / 372\<rparr>,
     \<lparr>earliestLorryIdx = 1, loadStartTime = 635 / 372, loadEndTime = 697 / 372\<rparr>,
     \<lparr>earliestLorryIdx = 2, loadStartTime = 697 / 372, loadEndTime = 253 / 124\<rparr>,
     \<lparr>earliestLorryIdx = 3, loadStartTime = 253 / 124, loadEndTime = 821 / 372\<rparr>,
     \<lparr>earliestLorryIdx = 4, loadStartTime = 821 / 372, loadEndTime = 883 / 372\<rparr>,
     \<lparr>earliestLorryIdx = 5, loadStartTime = 883 / 372, loadEndTime = 315 / 124\<rparr>,
     \<lparr>earliestLorryIdx = 6, loadStartTime = 315 / 124, loadEndTime = 1007 / 372\<rparr>]"

definition tripA :: "real \<Rightarrow> real \<Rightarrow> real \<Rightarrow> real \<Rightarrow> real \<Rightarrow> TripPhase list" where
  "tripA t0 t1 t2 t3 t4 =
    [\<lparr>start = t0, end = t1, type = loading\<rparr>, \<lparr>start = t1, end = t2, type = travel\<rparr>,
     \<lparr>start = t2, end = t3, type = tipping\<rparr>, \<lparr>start = t3, end = t4, type = travel\<rparr>]"

definition lastTripA :: "real \<Rightarrow> real \<Rightarrow> real \<Rightarrow> real \<Rightarrow> TripPhase list" where
  "lastTripA t0 t1 t2 t3 =
    [\<lparr>start = t0, end = t1, type = loading\<rparr>, \<lparr>start = t1, end = t2, type = travel\<rparr>,
     \<lparr>start = t2, end = t3, type = tipping\<rparr>]"

definition ganttA :: GanttData where
  "ganttA = \<lparr>schedules =
     [\<lparr>id_lorry = 1, trips = [tripA 0 (1 / 6) (151 / 186) (111 / 124) (191 / 124),
         lastTripA (191 / 124) (635 / 372) (875 / 372) (151 / 62)]\<rparr>,
      \<lparr>id_lorry = 2, trips = [tripA (1 / 6) (1 / 3) (91 / 93) (395 / 372) (635 / 372),
         lastTripA (635 / 372) (697 / 372) (937 / 372) (242 / 93)]\<rparr>,
      \<lparr>id_lorry = 3, trips = [tripA (1 / 3) (1 / 2) (71 / 62) (457 / 372) (697 / 372),
         lastTripA (697 / 372) (253 / 124) (333 / 124) (515 / 186)]\<rparr>,
      \<lparr>id_lorry = 4, trips = [tripA (1 / 2) (2 / 3) (122 / 93) (173 / 124) (253 / 124),
         lastTripA (253 / 124) (821 / 372) (1061 / 372) (91 / 31)]\<rparr>,
      \<lparr>id_lorry = 5, trips = [tripA (2 / 3) (5 / 6) (275 / 186) (581 / 372) (821 / 372),
         lastTripA (821 / 372) (883 / 372) (1123 / 372) (577 / 186)]\<rparr>,
      \<lparr>id_lorry = 6, trips = [tripA (5 / 6) 1 (51 / 31) (643 / 372) (883 / 372),
         lastTripA (883 / 372) (315 / 124) (395 / 124) (304 / 93)]\<rparr>,
      \<lparr>id_lorry = 7, trips = [tripA 1 (7 / 6) (337 / 186) (235 / 124) (315 / 124),
         lastTripA (315 / 124) (1007 / 372) (1247 / 372) (213 / 62)]\<rparr>,
      \<lparr>id_lorry = 8, trips = [lastTripA (7 / 6) (4 / 3) (184 / 93) (767 / 372)]\<rparr>],
     maxTime = 4\<rparr>"

text \<open>Scenario B: the same job in a window of half an hour, and what the solver returns for it.\<close>

definition scenarioB :: CalculatorInputs where
  "scenarioB = scenarioA\<lparr>time := 1 / 2\<rparr>"

definition resultB :: CalculationResult where
  "resultB = \<lparr>lorriesNeeded = \<infinity>, totalTripsNeeded = 15, timePerTrip = 191 / 124,
     tripsPerLorry = 0, totalValue = 4500, totalCost = 0,
     achievableMaterial = Some 60, achievableValue = Some 900, requiredTime = Some (5 / 2)\<rparr>"


section \<open>The chosen lorry\<close>

lemma Math_min_None: "Math_min xs = None \<longleftrightarrow> xs = []"
  by (cases xs) (auto split: option.splits)

lemma Math_min_Some: "Math_min xs = Some m \<Longrightarrow> m \<in> set xs \<and> (\<forall>x\<in>set xs. m \<le> x)"
proof (induction xs arbitrary: m)
  case Nil
  then show ?case by simp
next
  case (Cons x xs)
  show ?case
  proof (cases "Math_min xs")
    case None
    then have "xs = []" by (simp add: Math_min_None)
    with Cons.prems show ?thesis by simp
  next
    case (Some m')
    from Cons.IH [OF Some] have "m' \<in> set xs" "\<forall>y\<in>set xs. m' \<le> y" by simp_all
    moreover from Cons.prems Some have "m = min x m'" by simp
    ultimately show ?thesis by (auto simp: min_def)
  qed
qed

lemma indexOf_Some:
  "indexOf xs v = Some i \<Longrightarrow> i < length xs \<and> xs ! i = v \<and> (\<forall>j<i. xs ! j \<noteq> v)"
proof (induction xs arbitrary: i)
  case Nil
  then show ?case by simp
next
  case (Cons x xs)
  show ?case
  proof (cases "x = v")
    case True
    with Cons.prems show ?thesis by simp
  next
    case False
    with Cons.prems obtain i' where i': "indexOf xs v = Some i'" "i = Suc i'"
      by auto
    from Cons.IH [OF i'(1)] False i'(2) show ?thesis
      by (auto simp: nth_Cons split: nat.splits)
  qed
qed

lemma indexOf_member: "v \<in> set xs \<Longrightarrow> \<exists>i. indexOf xs v = Some i"
  by (induction xs) auto

lemma nextTrip_None: "nextTrip h xs bay = None \<longleftrightarrow> xs = []"
  by (auto simp: nextTrip_def Let_def Math_min_None split: option.splits)

lemma nextTrip_Some:
  assumes "nextTrip h xs bay = Some d"
  shows "earliestLorryIdx d < length xs"
    and "\<forall>x\<in>set xs. xs ! earliestLorryIdx d \<le> x"
    and "\<forall>j<earliestLorryIdx d. xs ! j \<noteq> xs ! earliestLorryIdx d"
    and "loadStartTime d = max (xs ! earliestLorryIdx d) bay"
    and "loadEndTime d = loadStartTime d + loadTimeHours h"
proof -
  from assms obtain m where m: "Math_min xs = Some m"
    by (auto simp: nextTrip_def split: option.splits)
  from Math_min_Some [OF m] have mem: "m \<in> set xs" and le: "\<forall>x\<in>set xs. m \<le> x"
    by simp_all
  from indexOf_member [OF mem] obtain i where i: "indexOf xs m = Some i" ..
  from assms m i have d: "d = \<lparr>earliestLorryIdx = i, loadStartTime = max m bay,
      loadEndTime = max m bay + loadTimeHours h\<rparr>"
    by (simp add: nextTrip_def Let_def)
  from indexOf_Some [OF i] have "i < length xs" "xs ! i = m" "\<forall>j<i. xs ! j \<noteq> m"
    by simp_all
  with d le show "earliestLorryIdx d < length xs"
    and "\<forall>x\<in>set xs. xs ! earliestLorryIdx d \<le> x"
    and "\<forall>j<earliestLorryIdx d. xs ! j \<noteq> xs ! earliestLorryIdx d"
    and "loadStartTime d = max (xs ! earliestLorryIdx d) bay"
    and "loadEndTime d = loadStartTime d + loadTimeHours h"
    by simp_all
qed

lemma length_sendLorry [simp]: "length (sendLorry h d xs) = length xs"
  by (simp add: sendLorry_def)

section \<open>Lorries ready by a given time\<close>

lemma ready_update:
  "i < length xs \<Longrightarrow>
     ready t (xs[i := v]) + (if xs ! i \<le> t then 1 else 0) = ready t xs + (if v \<le> t then 1 else 0)"
proof (induction xs arbitrary: i)
  case Nil
  then show ?case by simp
next
  case (Cons x xs)
  show ?case
  proof (cases i)
    case 0
    then show ?thesis by (simp add: ready_def)
  next
    case (Suc j)
    with Cons.prems have "j < length xs" by simp
    from Cons.IH [OF this] Suc show ?thesis by (simp add: ready_def)
  qed
qed

lemma ready_zero: "ready t xs = 0 \<longleftrightarrow> (\<forall>x\<in>set xs. t < x)"
  by (induction xs) (auto simp: ready_def)

lemma ready_replicate: "ready t (replicate n x) = (if x \<le> t then n else 0)"
  by (simp add: ready_def)

lemma dispatch_dominated:
  assumes dom: "\<And>t. ready t A \<le> ready t B"
    and bay: "bayB \<le> bayA"
    and a: "nextTrip h A bayA = Some dA"
  shows "\<exists>dB. nextTrip h B bayB = Some dB \<and> loadEndTime dB \<le> loadEndTime dA
           \<and> (\<forall>t. ready t (sendLorry h dA A) \<le> ready t (sendLorry h dB B))"
proof -
  let ?i = "earliestLorryIdx dA"
  note A = nextTrip_Some [OF a]
  have mA_mem: "A ! ?i \<in> set A" using A(1) by simp
  have "ready (A ! ?i) A \<noteq> 0"
    using mA_mem by (auto simp: ready_zero)
  with dom [of "A ! ?i"] have rB: "ready (A ! ?i) B \<noteq> 0" by linarith
  then have "B \<noteq> []" by (auto simp: ready_def)
  then obtain dB where b: "nextTrip h B bayB = Some dB"
    using nextTrip_None [of h B bayB] by (cases "nextTrip h B bayB") auto
  let ?j = "earliestLorryIdx dB"
  note B = nextTrip_Some [OF b]
  from rB obtain y where "y \<in> set B" "y \<le> A ! ?i"
    by (auto simp: ready_zero not_less)
  with B(2) have min_le: "B ! ?j \<le> A ! ?i" by fastforce
  have start_le: "loadStartTime dB \<le> loadStartTime dA"
    using A(4) B(4) min_le bay by (simp add: max_def)
  then have end_le: "loadEndTime dB \<le> loadEndTime dA"
    using A(5) B(5) by simp
  then have ret_le: "lorryReturnTime h dB \<le> lorryReturnTime h dA"
    by (simp add: lorryReturnTime_def)
  have "ready t (sendLorry h dA A) \<le> ready t (sendLorry h dB B)" for t
  proof -
    have ua: "ready t (sendLorry h dA A) + (if A ! ?i \<le> t then 1 else 0)
        = ready t A + (if lorryReturnTime h dA \<le> t then 1 else 0)"
      unfolding sendLorry_def by (rule ready_update [OF A(1)])
    have ub: "ready t (sendLorry h dB B) + (if B ! ?j \<le> t then 1 else 0)
        = ready t B + (if lorryReturnTime h dB \<le> t then 1 else 0)"
      unfolding sendLorry_def by (rule ready_update [OF B(1)])
    have Bmem: "B ! ?j \<in> set B" using B(1) by simp
    show ?thesis
    proof (cases "B ! ?j \<le> t")
      case True
      have "ready t B \<noteq> 0"
      proof
        assume "ready t B = 0"
        then have "t < B ! ?j" using Bmem by (simp add: ready_zero)
        with True show False by simp
      qed
      moreover have "\<not> A ! ?i \<le> t \<Longrightarrow> ready t A = 0"
        using A(2) by (fastforce simp: ready_zero)
      ultimately show ?thesis
        using ua ub dom [of t] ret_le True by (auto split: if_splits)
    next
      case False
      then have "ready t B = 0" using B(2) by (fastforce simp: ready_zero)
      with dom [of t] have a0: "ready t A = 0" by simp
      then have "\<not> A ! ?i \<le> t" using mA_mem by (auto simp: ready_zero)
      with ua ub a0 \<open>ready t B = 0\<close> False ret_le show ?thesis
        by (auto split: if_splits)
    qed
  qed
  with b end_le show ?thesis by blast
qed

lemma tripsPossible_dominated:
  "tripsPossible h window k A bayA \<Longrightarrow> (\<And>t. ready t A \<le> ready t B) \<Longrightarrow> bayB \<le> bayA
   \<Longrightarrow> tripsPossible h window k B bayB"
proof (induction k arbitrary: A B bayA bayB)
  case 0
  then show ?case by simp
next
  case (Suc k)
  from Suc.prems(1) obtain dA where a: "nextTrip h A bayA = Some dA"
    and okA: "\<not> loadEndTime dA > window + 0.0001"
    and restA: "tripsPossible h window k (sendLorry h dA A) (loadEndTime dA)"
    by (auto split: option.splits if_splits)
  from dispatch_dominated [OF Suc.prems(2) Suc.prems(3) a]
  obtain dB where b: "nextTrip h B bayB = Some dB" and le: "loadEndTime dB \<le> loadEndTime dA"
    and dom': "\<And>t. ready t (sendLorry h dA A) \<le> ready t (sendLorry h dB B)"
    by blast
  from Suc.IH [OF restA dom' le] b le okA show ?case by simp
qed

lemma possible_Suc: "possible h window tot n \<Longrightarrow> possible h window tot (Suc n)"
  unfolding possible_def
  by (erule tripsPossible_dominated) (simp_all add: ready_replicate del: replicate_Suc)

lemma possible_mono: "possible h window tot n \<Longrightarrow> n \<le> m \<Longrightarrow> possible h window tot m"
  by (induction m) (auto simp: le_Suc_eq dest: possible_Suc)

section \<open>The search\<close>

lemma searchLorries_enat:
  "searchLorries h window tot maxL n0 = enat n \<Longrightarrow>
     n0 \<le> n \<and> n \<le> maxL \<and> possible h window tot n
     \<and> (\<forall>m. n0 \<le> m \<and> m < n \<longrightarrow> \<not> possible h window tot m)"
proof (induction h window tot maxL n0 rule: searchLorries.induct)
  case (1 h window tot maxL n0)
  show ?case
  proof (cases "n0 \<le> maxL")
    case False
    with "1.prems" show ?thesis by (simp add: searchLorries.simps)
  next
    case le: True
    show ?thesis
    proof (cases "possible h window tot n0")
      case True
      with le "1.prems" show ?thesis by (auto simp: searchLorries.simps)
    next
      case False
      with le "1.prems"
      have "searchLorries h window tot maxL (Suc n0) = enat n"
        by (simp add: searchLorries.simps)
      from "1.IH" [OF le False this]
      have ih: "Suc n0 \<le> n" "n \<le> maxL" "possible h window tot n"
        "\<forall>m. Suc n0 \<le> m \<and> m < n \<longrightarrow> \<not> possible h window tot m"
        by simp_all
      have "\<not> possible h window tot m" if m: "n0 \<le> m" "m < n" for m
      proof (cases "m = n0")
        case True
        with False show ?thesis by simp
      next
        case neq: False
        with m have "Suc n0 \<le> m" by simp
        with ih(4) m(2) show ?thesis by blast
      qed
      with ih show ?thesis by simp
    qed
  qed
qed

lemma searchLorries_infinite:
  "searchLorries h window tot maxL n0 = \<infinity> \<longleftrightarrow>
     (\<forall>m. n0 \<le> m \<and> m \<le> maxL \<longrightarrow> \<not> possible h window tot m)"
proof (induction h window tot maxL n0 rule: searchLorries.induct)
  case (1 h window tot maxL n0)
  show ?case
  proof (cases "n0 \<le> maxL")
    case False
    then show ?thesis by (auto simp: searchLorries.simps)
  next
    case le: True
    show ?thesis
    proof (cases "possible h window tot n0")
      case True
      with le show ?thesis by (auto simp: searchLorries.simps)
    next
      case False
      have unfold: "searchLorries h window tot maxL n0
          = searchLorries h window tot maxL (Suc n0)"
        using le False by (simp add: searchLorries.simps)
      have "(\<forall>m. Suc n0 \<le> m \<and> m \<le> maxL \<longrightarrow> \<not> possible h window tot m)
          \<longleftrightarrow> (\<forall>m. n0 \<le> m \<and> m \<le> maxL \<longrightarrow> \<not> possible h window tot m)"
      proof
        assume r: "\<forall>m. Suc n0 \<le> m \<and> m \<le> maxL \<longrightarrow> \<not> possible h window tot m"
        show "\<forall>m. n0 \<le> m \<and> m \<le> maxL \<longrightarrow> \<not> possible h window tot m"
        proof (intro allI impI)
          fix m assume m: "n0 \<le> m \<and> m \<le> maxL"
          show "\<not> possible h window tot m"
          proof (cases "m = n0")
            case True
            with False show ?thesis by simp
          next
            case neq: False
            with m have "Suc n0 \<le> m" by simp
            with r m show ?thesis by blast
          qed
        qed
      next
        assume "\<forall>m. n0 \<le> m \<and> m \<le> maxL \<longrightarrow> \<not> possible h window tot m"
        then show "\<forall>m. Suc n0 \<le> m \<and> m \<le> maxL \<longrightarrow> \<not> possible h window tot m"
          by (simp add: Suc_le_eq less_imp_le)
      qed
      with "1.IH" [OF le False] unfold show ?thesis by simp
    qed
  qed
qed


section \<open>The admission loop\<close>

lemma nextTrip_advances:
  assumes "nextTrip h xs bay = Some d"
  shows "bay + loadTimeHours h \<le> loadEndTime d"
  using nextTrip_Some(4,5) [OF assms] by simp

lemma achievableLoop_returns_below:
  assumes L: "0 < loadTimeHours h"
  shows "nat \<lfloor>(window + 0.0001 - bay) / loadTimeHours h\<rfloor> < m \<Longrightarrow>
     \<exists>k. achievableLoop h window lorries bay c = Some k \<and> c \<le> k
        \<and> (k = c \<or> bay + real (k - c) * loadTimeHours h \<le> window + 0.0001)"
proof (induction m arbitrary: lorries bay c)
  case 0
  then show ?case by simp
next
  case (Suc m)
  let ?W = "window + 0.0001"
  let ?L = "loadTimeHours h"
  show ?case
  proof (cases "nextTrip h lorries bay")
    case None
    then show ?thesis by (subst achievableLoop.simps) simp
  next
    case (Some d)
    show ?thesis
    proof (cases "loadEndTime d > ?W")
      case True
      with Some show ?thesis by (subst achievableLoop.simps) simp
    next
      case False
      then have le: "loadEndTime d \<le> ?W" by simp
      have adv: "bay + ?L \<le> loadEndTime d" by (rule nextTrip_advances [OF Some])
      have "(?W - loadEndTime d) / ?L + 1 = (?W - loadEndTime d + ?L) / ?L"
        using L by (simp add: add_divide_distrib)
      also have "\<dots> \<le> (?W - bay) / ?L"
        using adv L by (intro divide_right_mono) simp_all
      finally have q: "(?W - loadEndTime d) / ?L + 1 \<le> (?W - bay) / ?L" .
      have nonneg: "0 \<le> (?W - loadEndTime d) / ?L"
        using le L by simp
      have "\<lfloor>(?W - loadEndTime d) / ?L\<rfloor> + 1 \<le> \<lfloor>(?W - bay) / ?L\<rfloor>"
        using q by linarith
      moreover have "0 \<le> \<lfloor>(?W - loadEndTime d) / ?L\<rfloor>"
        using nonneg by simp
      ultimately have "nat \<lfloor>(?W - loadEndTime d) / ?L\<rfloor> < m"
        using Suc.prems by linarith
      from Suc.IH [OF this, of "sendLorry h d lorries" "c + 1"]
      obtain k where k: "achievableLoop h window (sendLorry h d lorries) (loadEndTime d) (c + 1)
            = Some k" "c + 1 \<le> k"
          "k = c + 1 \<or> loadEndTime d + real (k - (c + 1)) * ?L \<le> ?W"
        by blast
      have unfold: "achievableLoop h window lorries bay c = Some k"
        using Some False k(1) by (subst achievableLoop.simps) simp
      have "bay + real (k - c) * ?L \<le> ?W"
      proof -
        have "real (k - c) = real (k - (c + 1)) + 1"
          using k(2) by (simp add: of_nat_diff)
        then have "bay + real (k - c) * ?L = (bay + ?L) + real (k - (c + 1)) * ?L"
          by (simp add: algebra_simps)
        also have "\<dots> \<le> loadEndTime d + real (k - (c + 1)) * ?L"
          using adv by simp
        also have "\<dots> \<le> ?W"
          using k(3) le by auto
        finally show ?thesis .
      qed
      with unfold k(2) show ?thesis by simp
    qed
  qed
qed

lemma achievableLoop_returns:
  assumes "0 < loadTimeHours h"
  shows "\<exists>k. achievableLoop h window lorries bay c = Some k \<and> c \<le> k
        \<and> (k = c \<or> bay + real (k - c) * loadTimeHours h \<le> window + 0.0001)"
  by (rule achievableLoop_returns_below [OF assms, of window bay
        "Suc (nat \<lfloor>(window + 0.0001 - bay) / loadTimeHours h\<rfloor>)"]) simp

lemma hoursOf_load_positive: "\<not> degenerate inputs adv \<Longrightarrow> 0 < loadTimeHours (hoursOf inputs adv)"
  by (simp add: degenerate_def hoursOf_def)

section \<open>The required-time loop\<close>

lemma requiredLoop_shift:
  "requiredLoop h (tot + 1) (i + 1) lorries bay req = requiredLoop h tot i lorries bay req"
proof (induction h tot i lorries bay req rule: requiredLoop.induct)
  case (1 h tot i lorries bay req)
  show ?case
  proof (cases "i < tot")
    case False
    then show ?thesis by (simp add: requiredLoop.simps)
  next
    case lt: True
    show ?thesis
    proof (cases "nextTrip h lorries bay")
      case None
      with lt show ?thesis by (simp add: requiredLoop.simps)
    next
      case (Some d)
      have "requiredLoop h (tot + 1) (i + 1) lorries bay req
          = requiredLoop h (tot + 1) (i + 1 + 1) (sendLorry h d lorries) (loadEndTime d)
              (if i = tot - 1 then loadEndTime d else req)"
        using lt Some by (subst requiredLoop.simps) simp
      also have "\<dots> = requiredLoop h tot (i + 1) (sendLorry h d lorries) (loadEndTime d)
              (if i = tot - 1 then loadEndTime d else req)"
        by (rule "1.IH" [OF lt Some])
      also have "\<dots> = requiredLoop h tot i lorries bay req"
        using lt Some by (subst (2) requiredLoop.simps) simp
      finally show ?thesis .
    qed
  qed
qed

lemma requiredLoop_first:
  assumes "nextTrip h lorries bay = Some d"
  shows "requiredLoop h 1 0 lorries bay req = loadEndTime d"
  using assms by (simp add: requiredLoop.simps)

lemma requiredLoop_next:
  assumes "nextTrip h lorries bay = Some d" and "1 \<le> j"
  shows "requiredLoop h (int (Suc j)) 0 lorries bay req
       = requiredLoop h (int j) 0 (sendLorry h d lorries) (loadEndTime d) req"
proof -
  have e: "int (Suc j) = int j + 1" by simp
  have "requiredLoop h (int j + 1) 0 lorries bay req
      = requiredLoop h (int j + 1) (0 + 1) (sendLorry h d lorries) (loadEndTime d) req"
    using assms by (subst requiredLoop.simps) simp
  then show ?thesis unfolding e requiredLoop_shift .
qed

lemma achievableLoop_counts:
  assumes "lorries \<noteq> []"
    and "\<forall>j. 1 \<le> j \<and> j \<le> k \<longrightarrow> requiredLoop h (int j) 0 lorries bay req \<le> window + 0.0001"
    and "requiredLoop h (int (Suc k)) 0 lorries bay req > window + 0.0001"
  shows "achievableLoop h window lorries bay c = Some (c + k)"
  using assms
proof (induction k arbitrary: lorries bay c)
  case 0
  from "0.prems"(1) obtain d where d: "nextTrip h lorries bay = Some d"
    using nextTrip_None [of h lorries bay] by (cases "nextTrip h lorries bay") auto
  with "0.prems"(3) have "loadEndTime d > window + 0.0001"
    by (simp add: requiredLoop_first)
  with d show ?case by (subst achievableLoop.simps) simp
next
  case (Suc k)
  from Suc.prems(1) obtain d where d: "nextTrip h lorries bay = Some d"
    using nextTrip_None [of h lorries bay] by (cases "nextTrip h lorries bay") auto
  from Suc.prems(2) have "requiredLoop h (int 1) 0 lorries bay req \<le> window + 0.0001"
    by (simp del: of_nat_Suc)
  then have ok: "\<not> loadEndTime d > window + 0.0001"
    using d by (simp add: requiredLoop_first)
  have ne: "sendLorry h d lorries \<noteq> []"
    using Suc.prems(1) by (simp add: sendLorry_def)
  have le: "\<forall>j. 1 \<le> j \<and> j \<le> k \<longrightarrow>
      requiredLoop h (int j) 0 (sendLorry h d lorries) (loadEndTime d) req \<le> window + 0.0001"
  proof (intro allI impI)
    fix j assume j: "1 \<le> j \<and> j \<le> k"
    then have "requiredLoop h (int (Suc j)) 0 lorries bay req \<le> window + 0.0001"
      using Suc.prems(2) by (simp del: of_nat_Suc)
    with j show "requiredLoop h (int j) 0 (sendLorry h d lorries) (loadEndTime d) req
        \<le> window + 0.0001"
      by (simp only: requiredLoop_next [OF d])
  qed
  have gt: "requiredLoop h (int (Suc k)) 0 (sendLorry h d lorries) (loadEndTime d) req
      > window + 0.0001"
    using Suc.prems(3) requiredLoop_next [OF d, of "Suc k" req] by simp
  from Suc.IH [OF ne le gt, of "c + 1"] d ok show ?case
    by (subst achievableLoop.simps) simp
qed

section \<open>The infeasible branch\<close>

lemma calculationResult_infeasible:
  assumes nd: "\<not> degenerate inputs adv"
    and inf: "searchLorries (hoursOf inputs adv) (time inputs) (tripsNeeded inputs adv)
           (maxLorriesToTest inputs adv) 1 = \<infinity>"
    and loop: "achievableLoop (hoursOf inputs adv) (time inputs)
           (replicate (maxLorriesToTest inputs adv) 0) 0 0 = Some k"
  shows "\<exists>r. calculationResult inputs adv = Some r \<and> lorriesNeeded r = \<infinity> \<and> totalCost r = 0
     \<and> totalValue r = material inputs * pricePerTonne inputs
     \<and> totalTripsNeeded r = tripsNeeded inputs adv
     \<and> achievableMaterial r = Some (real k * lorryCapacity adv)
     \<and> achievableValue r = Some (real k * lorryCapacity adv * pricePerTonne inputs)"
  using assms by (simp add: calculationResult_def Let_def)

lemma calculationResult_returns:
  assumes "\<not> degenerate inputs adv"
  shows "\<exists>r. calculationResult inputs adv = Some r
     \<and> totalTripsNeeded r = tripsNeeded inputs adv"
proof (cases "searchLorries (hoursOf inputs adv) (time inputs) (tripsNeeded inputs adv)
           (maxLorriesToTest inputs adv) 1")
  case (enat n)
  with assms show ?thesis
    by (simp add: calculationResult_def Let_def)
next
  case infinity
  from achievableLoop_returns [OF hoursOf_load_positive [OF assms]]
  obtain k where "achievableLoop (hoursOf inputs adv) (time inputs)
           (replicate (maxLorriesToTest inputs adv) 0) 0 0 = Some k"
    by blast
  from calculationResult_infeasible [OF assms infinity this] show ?thesis
    by blast
qed

lemma tripsPossible_bound:
  assumes "0 \<le> loadTimeHours h"
  shows "tripsPossible h window k lorries bay \<Longrightarrow>
     k = 0 \<or> bay + real k * loadTimeHours h \<le> window + 0.0001"
proof (induction k arbitrary: lorries bay)
  case 0
  then show ?case by simp
next
  case (Suc k)
  from Suc.prems obtain d where d: "nextTrip h lorries bay = Some d"
    and ok: "loadEndTime d \<le> window + 0.0001"
    and rest: "tripsPossible h window k (sendLorry h d lorries) (loadEndTime d)"
    by (auto split: option.splits if_splits simp: not_less)
  have adv: "bay + loadTimeHours h \<le> loadEndTime d"
    by (rule nextTrip_advances [OF d])
  from Suc.IH [OF rest] have "bay + real (Suc k) * loadTimeHours h \<le> window + 0.0001"
  proof
    assume "k = 0"
    with adv ok show ?thesis by simp
  next
    assume "loadEndTime d + real k * loadTimeHours h \<le> window + 0.0001"
    with adv show ?thesis by (simp add: algebra_simps)
  qed
  then show ?case by blast
qed

section \<open>Evaluating the scenarios\<close>

lemmas dispatch_eval = nextTrip_def sendLorry_def lorryReturnTime_def Let_def

lemma defaultSettings_fields:
  "lorryCapacity defaultSettings = 20" "avgSpeed defaultSettings = 31"
  "tipTime defaultSettings = 5"
  by (simp_all add: defaultSettings_def)

lemma scenarioA_fields:
  "material scenarioA = 300" "distance scenarioA = 20" "time scenarioA = 3"
  "loadTime scenarioA = 10" "pricePerTonne scenarioA = 15" "costPerLorry scenarioA = 600"
  by (simp_all add: scenarioA_def)

lemma hoursA_fields:
  "loadTimeHours hoursA = 1 / 6" "travelTimeHours hoursA = 20 / 31" "tipTimeHours hoursA = 1 / 12"
  by (simp_all add: hoursA_def)

lemma scenarioA_hours: "hoursOf scenarioA defaultSettings = hoursA"
  by (simp add: hoursOf_def hoursA_def scenarioA_fields defaultSettings_fields)

lemma scenarioA_trips: "tripsNeeded scenarioA defaultSettings = 15"
  by (simp add: tripsNeeded_def scenarioA_fields defaultSettings_fields)

lemma scenarioA_not_degenerate: "\<not> degenerate scenarioA defaultSettings"
  by (simp add: degenerate_def scenarioA_fields defaultSettings_fields)

lemma scenarioA_search: "searchLorries hoursA 3 15 50 1 = enat 8"
  by (simp add: searchLorries.simps possible_def dispatch_eval hoursA_def eval_nat_numeral)

lemma scenarioA_result: "calculationResult scenarioA defaultSettings = Some resultA"
proof -
  have m: "maxLorriesToTest scenarioA defaultSettings = 50"
    by (simp add: maxLorriesToTest_def scenarioA_trips)
  show ?thesis
    using scenarioA_search
    by (simp add: calculationResult_def scenarioA_not_degenerate m scenarioA_hours
        scenarioA_trips scenarioA_fields defaultSettings_fields Let_def numeral_eq_enat
        resultA_def hoursA_def)
qed

lemma scenarioB_fields:
  "material scenarioB = 300" "distance scenarioB = 20" "time scenarioB = 1 / 2"
  "loadTime scenarioB = 10" "pricePerTonne scenarioB = 15" "costPerLorry scenarioB = 600"
  by (simp_all add: scenarioB_def scenarioA_def)

lemma scenarioB_hours: "hoursOf scenarioB defaultSettings = hoursA"
  by (simp add: hoursOf_def hoursA_def scenarioB_fields defaultSettings_fields)

lemma scenarioB_trips: "tripsNeeded scenarioB defaultSettings = 15"
  by (simp add: tripsNeeded_def scenarioB_fields defaultSettings_fields)

lemma scenarioB_max: "maxLorriesToTest scenarioB defaultSettings = 50"
  by (simp add: maxLorriesToTest_def scenarioB_trips)

lemma scenarioB_not_degenerate: "\<not> degenerate scenarioB defaultSettings"
  by (simp add: degenerate_def scenarioB_fields defaultSettings_fields)

lemma scenarioB_impossible: "\<not> possible hoursA (1 / 2) 15 n"
proof
  assume "possible hoursA (1 / 2) 15 n"
  then have "tripsPossible hoursA (1 / 2) 15 (replicate n 0) 0"
    by (simp add: possible_def)
  from tripsPossible_bound [OF _ this] show False
    by (simp add: hoursA_def)
qed

lemma scenarioB_search: "searchLorries hoursA (1 / 2) 15 50 1 = \<infinity>"
  by (simp add: searchLorries_infinite scenarioB_impossible)

lemma scenarioB_load_ends:
  "loadEndOfTrip hoursA 50 1 = 1 / 6" "loadEndOfTrip hoursA 50 2 = 1 / 3"
  "loadEndOfTrip hoursA 50 3 = 1 / 2" "loadEndOfTrip hoursA 50 4 = 2 / 3"
  by (simp_all add: loadEndOfTrip_def requiredLoop.simps dispatch_eval hoursA_def eval_nat_numeral)

lemma scenarioB_achievable: "achievableLoop hoursA (1 / 2) (replicate 50 0) 0 0 = Some 3"
  by (simp add: achievableLoop.simps dispatch_eval hoursA_def eval_nat_numeral)

lemma scenarioB_required: "requiredLoop hoursA 15 0 (replicate 50 0) 0 0 = 5 / 2"
  by (simp add: requiredLoop.simps dispatch_eval hoursA_def eval_nat_numeral)

lemma scenarioB_result: "calculationResult scenarioB defaultSettings = Some resultB"
  using scenarioB_search
  by (simp add: calculationResult_def scenarioB_not_degenerate scenarioB_max scenarioB_hours
      scenarioB_trips scenarioB_fields defaultSettings_fields scenarioB_achievable
      scenarioB_required Let_def resultB_def hoursA_fields)

section \<open>Degenerate inputs\<close>

text \<open>
  C6. When the capacity, the speed, the window or the load duration is not positive, the
  call returns the result whose eight numeric fields are all 0, whatever the other inputs.
\<close>

theorem degenerate_inputs_all_zero:
  assumes "lorryCapacity adv \<le> 0 \<or> avgSpeed adv \<le> 0 \<or> time inputs \<le> 0 \<or> loadTime inputs \<le> 0"
  shows "calculationResult inputs adv =
    Some \<lparr>lorriesNeeded = 0, totalTripsNeeded = 0, timePerTrip = 0, tripsPerLorry = 0,
          totalValue = 0, totalCost = 0, achievableMaterial = Some 0,
          achievableValue = Some 0, requiredTime = None\<rparr>"
  using assms by (simp add: calculationResult_def degenerate_def)

theorem degenerate_inputs_all_zero_witness:
  "loadTime (scenarioA\<lparr>loadTime := 0\<rparr>) \<le> 0 \<and>
   calculationResult (scenarioA\<lparr>loadTime := 0\<rparr>) defaultSettings =
    Some \<lparr>lorriesNeeded = 0, totalTripsNeeded = 0, timePerTrip = 0, tripsPerLorry = 0,
          totalValue = 0, totalCost = 0, achievableMaterial = Some 0,
          achievableValue = Some 0, requiredTime = None\<rparr>"
  using degenerate_inputs_all_zero [of defaultSettings "scenarioA\<lparr>loadTime := 0\<rparr>"]
  by simp

section \<open>What the solver returns\<close>

lemma calculationResult_finite:
  assumes "\<not> degenerate inputs adv" and "calculationResult inputs adv = Some r"
    and "lorriesNeeded r = enat n"
  shows "searchLorries (hoursOf inputs adv) (time inputs) (tripsNeeded inputs adv)
           (maxLorriesToTest inputs adv) 1 = enat n"
    and "totalTripsNeeded r = tripsNeeded inputs adv"
  using assms
  by (auto simp: calculationResult_def Let_def split: enat.splits option.splits)

text \<open>
  C1. Past the degenerate-value check, a fleet size that dispatches every trip in time
  still does so with one more lorry; the call returns; and a finite \<open>lorriesNeeded\<close> is a
  fleet size between 1 and \<open>max(50, totalTripsNeeded)\<close> that succeeds while no smaller one
  (from 1) does, and every larger one succeeds as well.
\<close>

theorem fleet_search_monotone_minimal:
  assumes "\<not> degenerate inputs adv"
  shows "(\<forall>n. possible (hoursOf inputs adv) (time inputs) (tripsNeeded inputs adv) n
            \<longrightarrow> possible (hoursOf inputs adv) (time inputs) (tripsNeeded inputs adv) (Suc n))
       \<and> (\<exists>r. calculationResult inputs adv = Some r)
       \<and> (\<forall>r n. calculationResult inputs adv = Some r \<and> lorriesNeeded r = enat n \<longrightarrow>
            1 \<le> n \<and> n \<le> maxLorriesToTest inputs adv
            \<and> possible (hoursOf inputs adv) (time inputs) (tripsNeeded inputs adv) n
            \<and> (\<forall>m. 1 \<le> m \<and> m < n \<longrightarrow>
                  \<not> possible (hoursOf inputs adv) (time inputs) (tripsNeeded inputs adv) m)
            \<and> (\<forall>m. n \<le> m \<longrightarrow>
                  possible (hoursOf inputs adv) (time inputs) (tripsNeeded inputs adv) m))"
proof (intro conjI allI impI)
  fix n
  assume "possible (hoursOf inputs adv) (time inputs) (tripsNeeded inputs adv) n"
  then show "possible (hoursOf inputs adv) (time inputs) (tripsNeeded inputs adv) (Suc n)"
    by (rule possible_Suc)
next
  from calculationResult_returns [OF assms]
  show "\<exists>r. calculationResult inputs adv = Some r" by blast
next
  fix r n
  assume "calculationResult inputs adv = Some r \<and> lorriesNeeded r = enat n"
  then have "searchLorries (hoursOf inputs adv) (time inputs) (tripsNeeded inputs adv)
      (maxLorriesToTest inputs adv) 1 = enat n"
    using calculationResult_finite(1) [OF assms] by blast
  note found = searchLorries_enat [OF this]
  from found show "1 \<le> n" by simp
  from found show "n \<le> maxLorriesToTest inputs adv" by simp
  from found
  show ok: "possible (hoursOf inputs adv) (time inputs) (tripsNeeded inputs adv) n" by simp
  {
    fix m assume "1 \<le> m \<and> m < n"
    with found
    show "\<not> possible (hoursOf inputs adv) (time inputs) (tripsNeeded inputs adv) m" by blast
  }
  {
    fix m assume "n \<le> m"
    with ok
    show "possible (hoursOf inputs adv) (time inputs) (tripsNeeded inputs adv) m"
      by (rule possible_mono)
  }
qed

theorem fleet_search_monotone_minimal_witness:
  "\<not> degenerate scenarioA defaultSettings
   \<and> calculationResult scenarioA defaultSettings = Some resultA
   \<and> lorriesNeeded resultA = enat 8
   \<and> 8 \<le> maxLorriesToTest scenarioA defaultSettings
   \<and> possible hoursA 3 15 8 \<and> possible hoursA 3 15 9 \<and> \<not> possible hoursA 3 15 7"
proof -
  note inst = fleet_search_monotone_minimal [OF scenarioA_not_degenerate,
      unfolded scenarioA_hours scenarioA_trips scenarioA_fields]
  have eight: "lorriesNeeded resultA = enat 8"
    by (simp add: resultA_def numeral_eq_enat)
  from inst scenarioA_result eight
  have min: "8 \<le> maxLorriesToTest scenarioA defaultSettings" "possible hoursA 3 15 8"
    "\<forall>m. 1 \<le> m \<and> m < 8 \<longrightarrow> \<not> possible hoursA 3 15 m"
    by blast+
  from min(3) have "\<not> possible hoursA 3 15 7" by simp
  moreover from inst min(2) have "possible hoursA 3 15 (Suc 8)" by blast
  ultimately show ?thesis
    using min eight scenarioA_result scenarioA_not_degenerate by simp
qed

text \<open>
  C10. Past the degenerate-value check the admission loop of the infeasible branch
  returns. Each trip it admits moves the bay-free time on by at least the load duration,
  so the number of trips it admits, times the load duration, is within the window plus
  0.0001.
\<close>

theorem achievable_loop_terminates:
  assumes "\<not> degenerate inputs adv"
  shows "(\<exists>k. achievableLoop (hoursOf inputs adv) (time inputs)
                (replicate (maxLorriesToTest inputs adv) 0) 0 0 = Some k
              \<and> real k * (loadTime inputs / 60) \<le> time inputs + 0.0001)
       \<and> (\<forall>lorries bay d. nextTrip (hoursOf inputs adv) lorries bay = Some d \<longrightarrow>
              bay + loadTime inputs / 60 \<le> loadEndTime d)"
proof
  have L: "0 < loadTimeHours (hoursOf inputs adv)"
    by (rule hoursOf_load_positive [OF assms])
  have Leq: "loadTimeHours (hoursOf inputs adv) = loadTime inputs / 60"
    by (simp add: hoursOf_def)
  from achievableLoop_returns [OF L, of "time inputs" "replicate (maxLorriesToTest inputs adv) 0" 0 0]
  obtain k where k: "achievableLoop (hoursOf inputs adv) (time inputs)
                (replicate (maxLorriesToTest inputs adv) 0) 0 0 = Some k"
    "k = 0 \<or> real k * loadTimeHours (hoursOf inputs adv) \<le> time inputs + 0.0001"
    by auto
  have "0 < time inputs" using assms by (simp add: degenerate_def)
  with k(2) have "real k * (loadTime inputs / 60) \<le> time inputs + 0.0001"
    unfolding Leq by auto
  with k(1) show "\<exists>k. achievableLoop (hoursOf inputs adv) (time inputs)
                (replicate (maxLorriesToTest inputs adv) 0) 0 0 = Some k
              \<and> real k * (loadTime inputs / 60) \<le> time inputs + 0.0001"
    by blast
  show "\<forall>lorries bay d. nextTrip (hoursOf inputs adv) lorries bay = Some d \<longrightarrow>
              bay + loadTime inputs / 60 \<le> loadEndTime d"
    using nextTrip_advances [of "hoursOf inputs adv"] unfolding Leq by blast
qed

theorem achievable_loop_terminates_witness:
  "\<not> degenerate scenarioB defaultSettings
   \<and> achievableLoop hoursA (1 / 2) (replicate 50 0) 0 0 = Some 3
   \<and> real 3 * (loadTime scenarioB / 60) \<le> time scenarioB + 0.0001
   \<and> nextTrip hoursA [1 / 6, 0] (1 / 6)
       = Some \<lparr>earliestLorryIdx = 1, loadStartTime = 1 / 6, loadEndTime = 1 / 3\<rparr>
   \<and> 1 / 6 + loadTime scenarioB / 60 \<le> (1 / 3 :: real)"
proof -
  note inst = achievable_loop_terminates [OF scenarioB_not_degenerate,
      unfolded scenarioB_hours scenarioB_max scenarioB_fields]
  have d: "nextTrip hoursA [1 / 6, 0] (1 / 6)
       = Some \<lparr>earliestLorryIdx = 1, loadStartTime = 1 / 6, loadEndTime = 1 / 3\<rparr>"
    by (simp add: nextTrip_def hoursA_def)
  from inst d have "1 / 6 + 10 / 60 \<le> loadEndTime
      \<lparr>earliestLorryIdx = 1, loadStartTime = 1 / 6, loadEndTime = 1 / 3\<rparr>"
    by blast
  moreover from inst obtain k where
    "achievableLoop hoursA (1 / 2) (replicate 50 0) 0 0 = Some k"
    "real k * (10 / 60) \<le> 1 / 2 + 0.0001"
    by blast
  ultimately show ?thesis
    using d scenarioB_not_degenerate by (simp add: scenarioB_achievable scenarioB_fields)
qed

text \<open>
  C7. When no fleet size from 1 to the ceiling succeeds, the call still returns: the
  fleet size is \<open>\<infinity>\<close>, the total cost 0, the total value the material times the price,
  and the achievable material and value are present (a number of trips times the
  capacity, and that times the price).
\<close>

theorem infeasible_result_is_normal:
  assumes "\<not> degenerate inputs adv"
    and "\<forall>n. 1 \<le> n \<and> n \<le> maxLorriesToTest inputs adv \<longrightarrow>
           \<not> possible (hoursOf inputs adv) (time inputs) (tripsNeeded inputs adv) n"
  shows "\<exists>r k. calculationResult inputs adv = Some r \<and> lorriesNeeded r = \<infinity>
     \<and> totalCost r = 0 \<and> totalValue r = material inputs * pricePerTonne inputs
     \<and> achievableMaterial r = Some (real k * lorryCapacity adv)
     \<and> achievableValue r = Some (real k * lorryCapacity adv * pricePerTonne inputs)"
proof -
  have inf: "searchLorries (hoursOf inputs adv) (time inputs) (tripsNeeded inputs adv)
           (maxLorriesToTest inputs adv) 1 = \<infinity>"
    using assms(2) by (simp add: searchLorries_infinite)
  from achievableLoop_returns [OF hoursOf_load_positive [OF assms(1)]]
  obtain k where "achievableLoop (hoursOf inputs adv) (time inputs)
           (replicate (maxLorriesToTest inputs adv) 0) 0 0 = Some k"
    by blast
  from calculationResult_infeasible [OF assms(1) inf this] show ?thesis
    by blast
qed

theorem infeasible_result_is_normal_witness:
  "\<not> degenerate scenarioB defaultSettings
   \<and> \<not> possible hoursA (1 / 2) 15 1 \<and> \<not> possible hoursA (1 / 2) 15 50
   \<and> calculationResult scenarioB defaultSettings = Some resultB
   \<and> lorriesNeeded resultB = \<infinity> \<and> totalCost resultB = 0
   \<and> totalValue resultB = material scenarioB * pricePerTonne scenarioB
   \<and> achievableMaterial resultB = Some (real 3 * lorryCapacity defaultSettings)
   \<and> achievableValue resultB
       = Some (real 3 * lorryCapacity defaultSettings * pricePerTonne scenarioB)"
proof -
  have hyp: "\<forall>n. 1 \<le> n \<and> n \<le> maxLorriesToTest scenarioB defaultSettings \<longrightarrow>
      \<not> possible (hoursOf scenarioB defaultSettings) (time scenarioB)
           (tripsNeeded scenarioB defaultSettings) n"
    by (simp add: scenarioB_hours scenarioB_fields scenarioB_trips scenarioB_impossible)
  from infeasible_result_is_normal [OF scenarioB_not_degenerate hyp]
  obtain r k where r: "calculationResult scenarioB defaultSettings = Some r"
    "lorriesNeeded r = \<infinity>" "totalCost r = 0"
    "totalValue r = material scenarioB * pricePerTonne scenarioB"
    "achievableMaterial r = Some (real k * lorryCapacity defaultSettings)"
    by blast
  from r(1) have eq: "r = resultB" by (simp add: scenarioB_result)
  have "achievableMaterial resultB = Some (real 3 * lorryCapacity defaultSettings)"
    "achievableValue resultB
       = Some (real 3 * lorryCapacity defaultSettings * pricePerTonne scenarioB)"
    by (simp_all add: resultB_def defaultSettings_fields scenarioB_fields)
  with r eq show ?thesis
    using scenarioB_not_degenerate scenarioB_impossible scenarioB_result by simp
qed

text \<open>
  C8. In the infeasible branch: when, under the greedy dispatch with the ceiling fleet
  size and no deadline, trips 1 to \<open>k\<close> have their load ends within the window plus 0.0001
  and trip \<open>k + 1\<close> has its load end after it, the achievable material is \<open>k\<close> times the
  capacity and the achievable value is that times the price per tonne.
\<close>

theorem achievable_material_is_admitted_trips:
  assumes "\<not> degenerate inputs adv"
    and "\<forall>n. 1 \<le> n \<and> n \<le> maxLorriesToTest inputs adv \<longrightarrow>
           \<not> possible (hoursOf inputs adv) (time inputs) (tripsNeeded inputs adv) n"
    and "\<forall>j. 1 \<le> j \<and> j \<le> k \<longrightarrow>
           loadEndOfTrip (hoursOf inputs adv) (maxLorriesToTest inputs adv) j
             \<le> time inputs + 0.0001"
    and "loadEndOfTrip (hoursOf inputs adv) (maxLorriesToTest inputs adv) (Suc k)
           > time inputs + 0.0001"
  shows "\<exists>r. calculationResult inputs adv = Some r \<and> lorriesNeeded r = \<infinity>
     \<and> achievableMaterial r = Some (real k * lorryCapacity adv)
     \<and> achievableValue r = Some (real k * lorryCapacity adv * pricePerTonne inputs)"
proof -
  have inf: "searchLorries (hoursOf inputs adv) (time inputs) (tripsNeeded inputs adv)
           (maxLorriesToTest inputs adv) 1 = \<infinity>"
    using assms(2) by (simp add: searchLorries_infinite)
  have "50 \<le> maxLorriesToTest inputs adv"
    by (simp add: maxLorriesToTest_def)
  then have ne: "replicate (maxLorriesToTest inputs adv) (0::real) \<noteq> []"
    by auto
  have "achievableLoop (hoursOf inputs adv) (time inputs)
           (replicate (maxLorriesToTest inputs adv) 0) 0 0 = Some (0 + k)"
    using assms(3,4) unfolding loadEndOfTrip_def
    by (intro achievableLoop_counts [OF ne]) simp_all
  then have "achievableLoop (hoursOf inputs adv) (time inputs)
           (replicate (maxLorriesToTest inputs adv) 0) 0 0 = Some k"
    by simp
  from calculationResult_infeasible [OF assms(1) inf this] show ?thesis
    by blast
qed

theorem achievable_material_is_admitted_trips_witness:
  "\<not> degenerate scenarioB defaultSettings
   \<and> \<not> possible hoursA (1 / 2) 15 1 \<and> \<not> possible hoursA (1 / 2) 15 50
   \<and> loadEndOfTrip hoursA 50 1 \<le> 1 / 2 + 0.0001
   \<and> loadEndOfTrip hoursA 50 2 \<le> 1 / 2 + 0.0001
   \<and> loadEndOfTrip hoursA 50 3 \<le> 1 / 2 + 0.0001
   \<and> loadEndOfTrip hoursA 50 4 > 1 / 2 + 0.0001
   \<and> calculationResult scenarioB defaultSettings = Some resultB
   \<and> achievableMaterial resultB = Some (3 * 20) \<and> achievableValue resultB = Some (3 * 20 * 15)"
proof -
  have none: "\<forall>n. 1 \<le> n \<and> n \<le> maxLorriesToTest scenarioB defaultSettings \<longrightarrow>
      \<not> possible (hoursOf scenarioB defaultSettings) (time scenarioB)
           (tripsNeeded scenarioB defaultSettings) n"
    by (simp add: scenarioB_hours scenarioB_fields scenarioB_trips scenarioB_impossible)
  have three: "j = 1 \<or> j = 2 \<or> j = 3" if "1 \<le> j \<and> j \<le> 3" for j :: nat
    using that by arith
  have admitted: "\<forall>j. 1 \<le> j \<and> j \<le> 3 \<longrightarrow>
      loadEndOfTrip (hoursOf scenarioB defaultSettings)
         (maxLorriesToTest scenarioB defaultSettings) j \<le> time scenarioB + 0.0001"
    unfolding scenarioB_hours scenarioB_max scenarioB_fields
    using three scenarioB_load_ends by fastforce
  have "Suc 3 = 4" by simp
  then have refused: "loadEndOfTrip (hoursOf scenarioB defaultSettings)
      (maxLorriesToTest scenarioB defaultSettings) (Suc 3) > time scenarioB + 0.0001"
    unfolding scenarioB_hours scenarioB_max scenarioB_fields
    by (simp add: scenarioB_load_ends)
  from achievable_material_is_admitted_trips
    [OF scenarioB_not_degenerate none admitted refused]
  obtain r where r: "calculationResult scenarioB defaultSettings = Some r"
    "achievableMaterial r = Some (real 3 * lorryCapacity defaultSettings)"
    "achievableValue r
       = Some (real 3 * lorryCapacity defaultSettings * pricePerTonne scenarioB)"
    by blast
  from r(1) have eq: "r = resultB" by (simp add: scenarioB_result)
  from r(2,3) have "achievableMaterial resultB = Some (3 * 20)"
    "achievableValue resultB = Some (3 * 20 * 15)"
    unfolding eq by (simp_all add: defaultSettings_fields scenarioB_fields)
  then show ?thesis
    using scenarioB_not_degenerate scenarioB_impossible scenarioB_result scenarioB_load_ends
    by simp
qed

section \<open>The schedule loop follows the solver loop\<close>

lemma findIndex_indexOf:
  "findIndex (\<lambda>l. nextAvailableTime l = t) ls = indexOf (map nextAvailableTime ls) t"
  by (induction ls) simp_all

lemma scheduleChoice_nextTrip:
  "scheduleChoice h ls bay = nextTrip h (map nextAvailableTime ls) bay"
proof (cases "Math_min (map nextAvailableTime ls)")
  case None
  then show ?thesis by (simp add: scheduleChoice_def nextTrip_def)
next
  case (Some m)
  from Math_min_Some [OF Some] have "m \<in> set (map nextAvailableTime ls)" by simp
  from indexOf_member [OF this] obtain i where i: "indexOf (map nextAvailableTime ls) m = Some i" ..
  from indexOf_Some [OF i] have "i < length ls" "nextAvailableTime (ls ! i) = m"
    by auto
  with Some i show ?thesis
    by (simp add: scheduleChoice_def nextTrip_def findIndex_indexOf Let_def)
qed

lemma tripPhases_end:
  "end (last (tripPhases h s))
     = s + loadTimeHours h + travelTimeHours h + tipTimeHours h + travelTimeHours h"
  by (simp add: tripPhases_def Let_def)

lemma scheduleTrip_None: "scheduleTrip h ls bay = None \<longleftrightarrow> ls = []"
proof -
  have "nextTrip h (map nextAvailableTime ls) bay = None \<longleftrightarrow> ls = []"
    by (simp add: nextTrip_None)
  then show ?thesis
    by (cases "nextTrip h (map nextAvailableTime ls) bay")
      (auto simp: scheduleTrip_def scheduleChoice_nextTrip Let_def)
qed

lemma scheduleTrip_Some:
  assumes "scheduleTrip h ls bay = Some (ls', bay')"
  obtains d where "nextTrip h (map nextAvailableTime ls) bay = Some d"
    and "bay' = loadEndTime d"
    and "earliestLorryIdx d < length ls"
    and "ls' = ls[earliestLorryIdx d :=
            (ls ! earliestLorryIdx d)\<lparr>trips := trips (ls ! earliestLorryIdx d)
                                           @ [tripPhases h (loadStartTime d)],
                                       nextAvailableTime := lorryReturnTime h d\<rparr>]"
    and "map nextAvailableTime ls' = sendLorry h d (map nextAvailableTime ls)"
proof -
  from assms obtain d where d: "nextTrip h (map nextAvailableTime ls) bay = Some d"
    by (auto simp: scheduleTrip_def scheduleChoice_nextTrip split: option.splits)
  note D = nextTrip_Some [OF d]
  have ret: "end (last (tripPhases h (loadStartTime d))) = lorryReturnTime h d"
    using D(5) by (simp add: tripPhases_end lorryReturnTime_def)
  from assms d ret have bay': "bay' = loadEndTime d"
    and ls': "ls' = ls[earliestLorryIdx d :=
            (ls ! earliestLorryIdx d)\<lparr>trips := trips (ls ! earliestLorryIdx d)
                                           @ [tripPhases h (loadStartTime d)],
                                       nextAvailableTime := lorryReturnTime h d\<rparr>]"
    by (simp_all add: scheduleTrip_def scheduleChoice_nextTrip Let_def)
  have "map nextAvailableTime ls' = sendLorry h d (map nextAvailableTime ls)"
    unfolding ls' sendLorry_def by (simp add: map_update)
  with d bay' ls' D(1) show ?thesis
    by (intro that [of d]) simp_all
qed

lemma scheduleLog_Suc:
  assumes "scheduleTrip h ls bay = Some (ls', bay')"
    and "nextTrip h (map nextAvailableTime ls) bay = Some d"
  shows "scheduleLog h (Suc k) ls bay = d # scheduleLog h k ls' bay'"
  using assms by (simp add: scheduleChoice_nextTrip)

lemma scheduleTrips_trips:
  assumes "ls \<noteq> []"
  shows "\<exists>ls'. scheduleTrips h k ls bay = Some ls' \<and> length ls' = length ls
     \<and> (\<forall>j<length ls. id_lorry (ls' ! j) = id_lorry (ls ! j)
           \<and> trips (ls' ! j) = trips (ls ! j) @ tripsOfLorry h j (scheduleLog h k ls bay))"
  using assms
proof (induction k arbitrary: ls bay)
  case 0
  then show ?case by (simp add: tripsOfLorry_def)
next
  case (Suc k)
  from Suc.prems obtain ls1 bay1 where step: "scheduleTrip h ls bay = Some (ls1, bay1)"
    using scheduleTrip_None [of h ls bay] by (cases "scheduleTrip h ls bay") auto
  from step obtain d where d: "nextTrip h (map nextAvailableTime ls) bay = Some d"
    and i: "earliestLorryIdx d < length ls"
    and ls1: "ls1 = ls[earliestLorryIdx d :=
            (ls ! earliestLorryIdx d)\<lparr>trips := trips (ls ! earliestLorryIdx d)
                                           @ [tripPhases h (loadStartTime d)],
                                       nextAvailableTime := lorryReturnTime h d\<rparr>]"
    by (rule scheduleTrip_Some)
  have len1: "length ls1 = length ls" by (simp add: ls1)
  with Suc.prems have ne1: "ls1 \<noteq> []" by auto
  from Suc.IH [OF ne1, of bay1] obtain ls' where
    run: "scheduleTrips h k ls1 bay1 = Some ls'" and len: "length ls' = length ls1"
    and each: "\<forall>j<length ls1. id_lorry (ls' ! j) = id_lorry (ls1 ! j)
           \<and> trips (ls' ! j) = trips (ls1 ! j) @ tripsOfLorry h j (scheduleLog h k ls1 bay1)"
    by blast
  have log: "scheduleLog h (Suc k) ls bay = d # scheduleLog h k ls1 bay1"
    by (rule scheduleLog_Suc [OF step d])
  have "id_lorry (ls' ! j) = id_lorry (ls ! j)
      \<and> trips (ls' ! j) = trips (ls ! j) @ tripsOfLorry h j (scheduleLog h (Suc k) ls bay)"
    if j: "j < length ls" for j
  proof -
    from each j len1 have a: "id_lorry (ls' ! j) = id_lorry (ls1 ! j)"
      and b: "trips (ls' ! j) = trips (ls1 ! j) @ tripsOfLorry h j (scheduleLog h k ls1 bay1)"
      by simp_all
    show ?thesis
    proof (cases "j = earliestLorryIdx d")
      case True
      with i have "ls1 ! j = (ls ! j)\<lparr>trips := trips (ls ! j) @ [tripPhases h (loadStartTime d)],
          nextAvailableTime := lorryReturnTime h d\<rparr>"
        by (simp add: ls1)
      with True a b show ?thesis
        unfolding log by (simp add: tripsOfLorry_def)
    next
      case False
      then have "ls1 ! j = ls ! j" by (simp add: ls1)
      with False a b show ?thesis
        unfolding log by (simp add: tripsOfLorry_def)
    qed
  qed
  with step run len len1 show ?case by simp
qed

lemma scheduleLog_tripsLog:
  "tripsPossible h window k (map nextAvailableTime ls) bay \<Longrightarrow>
     scheduleLog h k ls bay = tripsLog h window k (map nextAvailableTime ls) bay
     \<and> length (tripsLog h window k (map nextAvailableTime ls) bay) = k"
proof (induction k arbitrary: ls bay)
  case 0
  then show ?case by simp
next
  case (Suc k)
  from Suc.prems obtain d where d: "nextTrip h (map nextAvailableTime ls) bay = Some d"
    and ok: "\<not> loadEndTime d > window + 0.0001"
    and rest: "tripsPossible h window k (sendLorry h d (map nextAvailableTime ls)) (loadEndTime d)"
    by (auto split: option.splits if_splits)
  from d have "ls \<noteq> []" by (auto simp: nextTrip_def)
  then obtain ls1 bay1 where step: "scheduleTrip h ls bay = Some (ls1, bay1)"
    using scheduleTrip_None [of h ls bay] by (cases "scheduleTrip h ls bay") auto
  from step obtain d' where d': "nextTrip h (map nextAvailableTime ls) bay = Some d'"
    and bay1: "bay1 = loadEndTime d'"
    and times: "map nextAvailableTime ls1 = sendLorry h d' (map nextAvailableTime ls)"
    by (rule scheduleTrip_Some)
  from d d' have same: "d' = d" by simp
  from rest have "tripsPossible h window k (map nextAvailableTime ls1) bay1"
    by (simp add: times bay1 same)
  from Suc.IH [OF this]
  have ih: "scheduleLog h k ls1 bay1
      = tripsLog h window k (sendLorry h d (map nextAvailableTime ls)) (loadEndTime d)"
    "length (tripsLog h window k (sendLorry h d (map nextAvailableTime ls)) (loadEndTime d)) = k"
    by (simp_all add: times bay1 same)
  have log: "scheduleLog h (Suc k) ls bay = d # scheduleLog h k ls1 bay1"
    by (rule scheduleLog_Suc [OF step d])
  have "tripsLog h window (Suc k) (map nextAvailableTime ls) bay
      = d # tripsLog h window k (sendLorry h d (map nextAvailableTime ls)) (loadEndTime d)"
    using d ok by simp
  with ih show ?case unfolding log by simp
qed

section \<open>What the schedule builder returns\<close>

lemma length_lorriesAtStart [simp]: "length (lorriesAtStart n) = n"
  by (simp add: lorriesAtStart_def)

lemma lorriesAtStart_nth:
  "j < n \<Longrightarrow> lorriesAtStart n ! j = \<lparr>id_lorry = j + 1, trips = [], nextAvailableTime = 0\<rparr>"
  by (simp add: lorriesAtStart_def)

lemma lorriesAtStart_times: "map nextAvailableTime (lorriesAtStart n) = replicate n 0"
  by (rule nth_equalityI) (simp_all add: lorriesAtStart_def)

lemma tripsOfLorry_phases: "t \<in> set (tripsOfLorry h j ds) \<Longrightarrow> \<exists>s. t = tripPhases h s"
  by (auto simp: tripsOfLorry_def)

lemma tripPhases_last: "tripPhases h s \<noteq> [] \<and> type (last (tripPhases h s)) = travel"
  by (simp add: tripPhases_def Let_def)

lemma dropFinalReturn_trips:
  assumes "\<forall>t\<in>set (trips l). \<exists>s. t = tripPhases h s"
  shows "trips (dropFinalReturn l) = withoutFinalPhase (trips l)"
    and "id_lorry (dropFinalReturn l) = id_lorry l"
proof -
  show "id_lorry (dropFinalReturn l) = id_lorry l"
    by (simp add: dropFinalReturn_def Let_def)
  show "trips (dropFinalReturn l) = withoutFinalPhase (trips l)"
  proof (cases "trips l = []")
    case True
    then show ?thesis by (simp add: dropFinalReturn_def withoutFinalPhase_def)
  next
    case False
    then have "last (trips l) \<in> set (trips l)" by simp
    with assms obtain s where "last (trips l) = tripPhases h s" by blast
    with False tripPhases_last [of h s] show ?thesis
      by (simp add: dropFinalReturn_def withoutFinalPhase_def Let_def)
  qed
qed

lemma ganttChart_schedules:
  assumes "lorriesNeeded r = enat n" and "0 < n"
  shows "\<exists>g. ganttChart inputs r adv = Some g
     \<and> schedules g = map (\<lambda>j. \<lparr>id_lorry = j + 1,
           trips = withoutFinalPhase (tripsOfLorry (hoursOf inputs adv) j
             (scheduleLog (hoursOf inputs adv) (nat (totalTripsNeeded r)) (lorriesAtStart n) 0))\<rparr>)
         [0..<n]"
proof -
  let ?h = "hoursOf inputs adv"
  let ?k = "nat (totalTripsNeeded r)"
  let ?log = "scheduleLog ?h ?k (lorriesAtStart n) 0"
  let ?out = "map (\<lambda>j. \<lparr>id_lorry = j + 1, trips = withoutFinalPhase (tripsOfLorry ?h j ?log)\<rparr>)
         [0..<n]"
  from assms(2) have "lorriesAtStart n \<noteq> []"
    by (auto simp: lorriesAtStart_def)
  from scheduleTrips_trips [OF this, of ?h ?k 0] obtain ls where
    run: "scheduleTrips ?h ?k (lorriesAtStart n) 0 = Some ls" and len: "length ls = n"
    and each: "\<forall>j<n. id_lorry (ls ! j) = id_lorry (lorriesAtStart n ! j)
           \<and> trips (ls ! j) = trips (lorriesAtStart n ! j) @ tripsOfLorry ?h j ?log"
    by auto
  have nth: "LorrySchedule.truncate (dropFinalReturn (ls ! j))
      = \<lparr>id_lorry = j + 1, trips = withoutFinalPhase (tripsOfLorry ?h j ?log)\<rparr>"
    if j: "j < n" for j
  proof -
    from each j have i: "id_lorry (ls ! j) = j + 1" and t: "trips (ls ! j) = tripsOfLorry ?h j ?log"
      by (simp_all add: lorriesAtStart_nth)
    have "\<forall>t\<in>set (trips (ls ! j)). \<exists>s. t = tripPhases ?h s"
      unfolding t by (blast dest: tripsOfLorry_phases)
    from dropFinalReturn_trips [OF this] i t show ?thesis
      by (simp add: LorrySchedule.truncate_def)
  qed
  have trunc: "map LorrySchedule.truncate (map dropFinalReturn ls) = ?out"
    by (rule nth_equalityI) (simp_all add: len nth)
  have "map id_lorry ?out = map Suc [0..<n]"
    by simp
  then have "sorted (map id_lorry ?out)"
    by (simp add: sorted_map strict_mono_on_def sorted_wrt_map)
  then have "sort_key id_lorry ?out = ?out"
    by (rule sort_key_id_if_sorted)
  with run trunc assms show ?thesis
    by (simp add: ganttChart_def Let_def)
qed

section \<open>The dispatch logs\<close>

lemma tripsLog_Suc_mem:
  assumes "d \<in> set (tripsLog h window (Suc k) xs bay)"
  obtains e where "nextTrip h xs bay = Some e" and "\<not> loadEndTime e > window + 0.0001"
    and "d = e \<or> d \<in> set (tripsLog h window k (sendLorry h e xs) (loadEndTime e))"
proof (cases "nextTrip h xs bay")
  case None
  with assms show ?thesis by simp
next
  case (Some e)
  with assms have "\<not> loadEndTime e > window + 0.0001"
    by (auto split: if_splits)
  with assms Some that [of e] show ?thesis by auto
qed

lemma scheduleLog_Suc_nonempty:
  assumes "d \<in> set (scheduleLog h (Suc k) ls bay)"
  shows "ls \<noteq> []"
proof
  assume "ls = []"
  then have "scheduleLog h (Suc k) ls bay = []"
    by (simp add: scheduleChoice_nextTrip nextTrip_def)
  with assms show False by (simp del: scheduleLog.simps)
qed

lemma tripsLog_entries:
  "d \<in> set (tripsLog h window k xs bay) \<Longrightarrow>
     earliestLorryIdx d < length xs \<and> loadEndTime d = loadStartTime d + loadTimeHours h
     \<and> loadEndTime d \<le> window + 0.0001"
proof (induction k arbitrary: xs bay)
  case 0
  then show ?case by simp
next
  case (Suc k)
  from Suc.prems obtain e where e: "nextTrip h xs bay = Some e"
    and ok: "\<not> loadEndTime e > window + 0.0001"
    and mem: "d = e \<or> d \<in> set (tripsLog h window k (sendLorry h e xs) (loadEndTime e))"
    by (rule tripsLog_Suc_mem)
  from mem show ?case
  proof
    assume "d = e"
    with nextTrip_Some(1,5) [OF e] ok show ?thesis by simp
  next
    assume "d \<in> set (tripsLog h window k (sendLorry h e xs) (loadEndTime e))"
    from Suc.IH [OF this] show ?thesis by simp
  qed
qed

lemma tripsLog_after:
  assumes "0 \<le> loadTimeHours h"
  shows "d \<in> set (tripsLog h window k xs bay) \<Longrightarrow> bay \<le> loadStartTime d"
proof (induction k arbitrary: xs bay)
  case 0
  then show ?case by simp
next
  case (Suc k)
  from Suc.prems obtain e where e: "nextTrip h xs bay = Some e"
    and mem: "d = e \<or> d \<in> set (tripsLog h window k (sendLorry h e xs) (loadEndTime e))"
    by (rule tripsLog_Suc_mem)
  note E = nextTrip_Some(4,5) [OF e]
  from mem show ?case
  proof
    assume "d = e"
    with E show ?thesis by simp
  next
    assume "d \<in> set (tripsLog h window k (sendLorry h e xs) (loadEndTime e))"
    from Suc.IH [OF this] E assms show ?thesis by simp
  qed
qed

lemma tripsLog_chain:
  assumes "0 \<le> loadTimeHours h"
  shows "sorted_wrt (\<lambda>a b. loadEndTime a \<le> loadStartTime b) (tripsLog h window k xs bay)"
proof (induction k arbitrary: xs bay)
  case 0
  then show ?case by simp
next
  case (Suc k)
  show ?case
  proof (cases "nextTrip h xs bay")
    case None
    then show ?thesis by simp
  next
    case (Some e)
    show ?thesis
    proof (cases "loadEndTime e > window + 0.0001")
      case True
      with Some show ?thesis by simp
    next
      case False
      with Some Suc.IH [of "sendLorry h e xs" "loadEndTime e"] show ?thesis
        by (auto dest: tripsLog_after [OF assms])
    qed
  qed
qed

lemma scheduleLog_entries:
  "d \<in> set (scheduleLog h k ls bay) \<Longrightarrow>
     earliestLorryIdx d < length ls \<and> loadEndTime d = loadStartTime d + loadTimeHours h"
proof (induction k arbitrary: ls bay)
  case 0
  then show ?case by simp
next
  case (Suc k)
  from Suc.prems have "ls \<noteq> []"
    by (rule scheduleLog_Suc_nonempty)
  then obtain ls1 bay1 where step: "scheduleTrip h ls bay = Some (ls1, bay1)"
    using scheduleTrip_None [of h ls bay] by (cases "scheduleTrip h ls bay") auto
  from step obtain e where e: "nextTrip h (map nextAvailableTime ls) bay = Some e"
    and len: "map nextAvailableTime ls1 = sendLorry h e (map nextAvailableTime ls)"
    by (rule scheduleTrip_Some)
  from len have len1: "length ls1 = length ls"
    by (metis length_map length_sendLorry)
  from Suc.prems have "d = e \<or> d \<in> set (scheduleLog h k ls1 bay1)"
    unfolding scheduleLog_Suc [OF step e] by simp
  then show ?case
  proof
    assume "d = e"
    with nextTrip_Some(1,5) [OF e] show ?thesis by simp
  next
    assume "d \<in> set (scheduleLog h k ls1 bay1)"
    from Suc.IH [OF this] len1 show ?thesis by simp
  qed
qed

lemma scheduleLog_after:
  assumes "0 \<le> loadTimeHours h"
  shows "d \<in> set (scheduleLog h k ls bay) \<Longrightarrow> bay \<le> loadStartTime d"
proof (induction k arbitrary: ls bay)
  case 0
  then show ?case by simp
next
  case (Suc k)
  from Suc.prems have "ls \<noteq> []"
    by (rule scheduleLog_Suc_nonempty)
  then obtain ls1 bay1 where step: "scheduleTrip h ls bay = Some (ls1, bay1)"
    using scheduleTrip_None [of h ls bay] by (cases "scheduleTrip h ls bay") auto
  from step obtain e where e: "nextTrip h (map nextAvailableTime ls) bay = Some e"
    and bay1: "bay1 = loadEndTime e"
    by (rule scheduleTrip_Some)
  note E = nextTrip_Some(4,5) [OF e]
  from Suc.prems have "d = e \<or> d \<in> set (scheduleLog h k ls1 bay1)"
    unfolding scheduleLog_Suc [OF step e] by simp
  then show ?case
  proof
    assume "d = e"
    with E show ?thesis by simp
  next
    assume "d \<in> set (scheduleLog h k ls1 bay1)"
    from Suc.IH [OF this] E assms bay1 show ?thesis by simp
  qed
qed

lemma scheduleLog_chain:
  assumes "0 \<le> loadTimeHours h"
  shows "sorted_wrt (\<lambda>a b. loadEndTime a \<le> loadStartTime b) (scheduleLog h k ls bay)"
proof (induction k arbitrary: ls bay)
  case 0
  then show ?case by simp
next
  case (Suc k)
  show ?case
  proof (cases "ls = []")
    case True
    then show ?thesis by (simp add: scheduleChoice_nextTrip nextTrip_def)
  next
    case False
    then obtain ls1 bay1 where step: "scheduleTrip h ls bay = Some (ls1, bay1)"
      using scheduleTrip_None [of h ls bay] by (cases "scheduleTrip h ls bay") auto
    from step obtain e where e: "nextTrip h (map nextAvailableTime ls) bay = Some e"
      and bay1: "bay1 = loadEndTime e"
      by (rule scheduleTrip_Some)
    from Suc.IH [of ls1 bay1] show ?thesis
      unfolding scheduleLog_Suc [OF step e]
      by (auto simp: bay1 dest: scheduleLog_after [OF assms])
  qed
qed

section \<open>Trips and phases\<close>

lemma tripPhases_types: "map type (tripPhases h s) = [loading, travel, tipping, travel]"
  by (simp add: tripPhases_def Let_def)

lemma tripPhases_length [simp]: "length (tripPhases h s) = 4"
  by (simp add: tripPhases_def Let_def)

lemma tripPhases_hd:
  "hd (tripPhases h s) = \<lparr>start = s, end = s + loadTimeHours h, type = loading\<rparr>"
  "hd (butlast (tripPhases h s)) = \<lparr>start = s, end = s + loadTimeHours h, type = loading\<rparr>"
  by (simp_all add: tripPhases_def Let_def)

lemma tripPhases_loading:
  "filter (\<lambda>p. type p = loading) (tripPhases h s)
     = [\<lparr>start = s, end = s + loadTimeHours h, type = loading\<rparr>]"
  "filter (\<lambda>p. type p = loading) (butlast (tripPhases h s))
     = [\<lparr>start = s, end = s + loadTimeHours h, type = loading\<rparr>]"
  by (simp_all add: tripPhases_def Let_def)

lemma tripPhases_contiguous:
  "Suc p < length (tripPhases h s) \<Longrightarrow>
     end (tripPhases h s ! p) = start (tripPhases h s ! Suc p)"
proof -
  assume "Suc p < length (tripPhases h s)"
  then have "p = 0 \<or> p = 1 \<or> p = 2" by auto
  then show ?thesis by (auto simp: tripPhases_def Let_def)
qed

lemma length_withoutFinalPhase [simp]: "length (withoutFinalPhase ts) = length ts"
  by (cases "ts = []") (simp_all add: withoutFinalPhase_def)

lemma withoutFinalPhase_nth:
  "i < length ts \<Longrightarrow>
     withoutFinalPhase ts ! i = (if Suc i = length ts then butlast (ts ! i) else ts ! i)"
proof (cases "ts = []")
  case True
  assume "i < length ts"
  with True show ?thesis by simp
next
  case False
  assume i: "i < length ts"
  show ?thesis
  proof (cases "Suc i = length ts")
    case True
    then have "i = length (butlast ts)" by simp
    with False True show ?thesis
      by (simp add: withoutFinalPhase_def nth_append last_conv_nth)
  next
    case neq: False
    with i have "i < length (butlast ts)" by simp
    with False neq show ?thesis
      by (simp add: withoutFinalPhase_def nth_append nth_butlast)
  qed
qed

lemma tripsOfLorry_nth:
  "i < length (tripsOfLorry h j ds) \<Longrightarrow>
     \<exists>d\<in>set ds. earliestLorryIdx d = j \<and> tripsOfLorry h j ds ! i = tripPhases h (loadStartTime d)"
proof -
  let ?ds = "filter (\<lambda>d. earliestLorryIdx d = j) ds"
  assume "i < length (tripsOfLorry h j ds)"
  then have i: "i < length ?ds" by (simp add: tripsOfLorry_def)
  then have "?ds ! i \<in> set ?ds" by (rule nth_mem)
  moreover from i have "tripsOfLorry h j ds ! i = tripPhases h (loadStartTime (?ds ! i))"
    by (simp add: tripsOfLorry_def)
  ultimately show ?thesis by auto
qed

section \<open>Sharing a log among the lorries\<close>

lemma mset_filter_less_Suc:
  "mset (filter (\<lambda>d. g d < n) ds) + mset (filter (\<lambda>d. g d = n) ds)
     = mset (filter (\<lambda>d. g d < Suc n) ds)"
  by (induction ds) (auto simp: less_Suc_eq)

lemma mset_concat_by_lorry:
  "mset (concat (map (\<lambda>j. map f (filter (\<lambda>d. g d = j) ds)) [0..<n]))
     = mset (map f (filter (\<lambda>d. g d < n) ds))"
proof (induction n)
  case 0
  then show ?case by simp
next
  case (Suc n)
  have "mset (concat (map (\<lambda>j. map f (filter (\<lambda>d. g d = j) ds)) [0..<Suc n]))
      = image_mset f (mset (filter (\<lambda>d. g d < n) ds) + mset (filter (\<lambda>d. g d = n) ds))"
    using Suc.IH by simp
  then show ?case
    by (simp only: mset_filter_less_Suc mset_map)
qed

lemma mset_concat_all:
  assumes "\<forall>d\<in>set ds. g d < n"
  shows "mset (concat (map (\<lambda>j. map f (filter (\<lambda>d. g d = j) ds)) [0..<n])) = mset (map f ds)"
proof -
  from assms have "filter (\<lambda>d. g d < n) ds = ds" by simp
  then show ?thesis by (simp add: mset_concat_by_lorry)
qed

lemma length_concat_all:
  assumes "\<forall>d\<in>set ds. g d < n"
  shows "sum_list (map (\<lambda>j. length (filter (\<lambda>d. g d = j) ds)) [0..<n]) = length ds"
proof -
  have "size (mset (concat (map (\<lambda>j. map id (filter (\<lambda>d. g d = j) ds)) [0..<n])))
      = size (mset (map id ds))"
    by (simp only: mset_concat_all [OF assms])
  then show ?thesis
    by (simp add: length_concat comp_def)
qed

lemma map_withoutFinalPhase:
  assumes "\<forall>t\<in>set ts. f (butlast t) = f t"
  shows "map f (withoutFinalPhase ts) = map f ts"
proof (rule nth_equalityI)
  show "length (map f (withoutFinalPhase ts)) = length (map f ts)" by simp
next
  fix i assume "i < length (map f (withoutFinalPhase ts))"
  then have i: "i < length ts" by simp
  then have "ts ! i \<in> set ts" by (rule nth_mem)
  with assms have "f (butlast (ts ! i)) = f (ts ! i)" by blast
  with i show "map f (withoutFinalPhase ts) ! i = map f ts ! i"
    by (simp add: withoutFinalPhase_nth)
qed

lemma feasible_solve:
  assumes "\<not> degenerate inputs adv" and "calculationResult inputs adv = Some r"
    and "lorriesNeeded r = enat n"
  shows "1 \<le> n" and "totalTripsNeeded r = tripsNeeded inputs adv"
    and "tripsPossible (hoursOf inputs adv) (time inputs) (nat (totalTripsNeeded r))
           (map nextAvailableTime (lorriesAtStart n)) 0"
proof -
  note found = searchLorries_enat [OF calculationResult_finite(1) [OF assms]]
  show "1 \<le> n" using found by simp
  show tot: "totalTripsNeeded r = tripsNeeded inputs adv"
    by (rule calculationResult_finite(2) [OF assms])
  from found have "possible (hoursOf inputs adv) (time inputs) (tripsNeeded inputs adv) n"
    by simp
  then show "tripsPossible (hoursOf inputs adv) (time inputs) (nat (totalTripsNeeded r))
           (map nextAvailableTime (lorriesAtStart n)) 0"
    by (simp add: possible_def tot lorriesAtStart_times)
qed

lemma builderLog_lorries:
  "d \<in> set (builderLog inputs r adv n) \<Longrightarrow>
     earliestLorryIdx d < n
     \<and> loadEndTime d = loadStartTime d + loadTimeHours (hoursOf inputs adv)"
  using scheduleLog_entries [of d "hoursOf inputs adv" "nat (totalTripsNeeded r)"
      "lorriesAtStart n" 0]
  by (simp add: builderLog_def)

lemma schedule_trip_count:
  assumes "schedules g = map (\<lambda>j. \<lparr>id_lorry = j + 1,
       trips = withoutFinalPhase (tripsOfLorry h j ds)\<rparr>) [0..<n]"
    and "\<forall>d\<in>set ds. earliestLorryIdx d < n"
  shows "sum_list (map (\<lambda>s. length (trips s)) (schedules g)) = length ds"
proof -
  have "sum_list (map (\<lambda>s. length (trips s)) (schedules g))
      = sum_list (map (\<lambda>j. length (filter (\<lambda>d. earliestLorryIdx d = j) ds)) [0..<n])"
    by (simp add: assms(1) comp_def tripsOfLorry_def)
  also have "\<dots> = length ds"
    by (rule length_concat_all [OF assms(2)])
  finally show ?thesis .
qed

section \<open>Loading phases, one after the other\<close>

lemma chain_distinct:
  assumes "sorted_wrt R ys" and "\<And>a b. a \<in> set ys \<Longrightarrow> R a b \<Longrightarrow> a \<noteq> b"
  shows "distinct ys"
  using assms by (induction ys) auto

lemma permuted_chain:
  assumes perm: "mset xs = mset ys" and chain: "sorted_wrt R ys"
    and irrefl: "\<And>a b. a \<in> set ys \<Longrightarrow> R a b \<Longrightarrow> a \<noteq> b"
    and ij: "i < j" "j < length xs"
  shows "R (xs ! i) (xs ! j) \<or> R (xs ! j) (xs ! i)"
proof -
  have "distinct ys" by (rule chain_distinct [OF chain irrefl])
  with mset_eq_imp_distinct_iff [OF perm] have dx: "distinct xs" by simp
  from ij have i: "i < length xs" by simp
  from dx i ij(2) ij(1) have neq: "xs ! i \<noteq> xs ! j"
    by (simp add: nth_eq_iff_index_eq)
  from perm have sets: "set xs = set ys" by (rule mset_eq_setD)
  from i have "xs ! i \<in> set xs" by (rule nth_mem)
  then have mi: "xs ! i \<in> set ys" by (simp only: sets)
  from ij(2) have "xs ! j \<in> set xs" by (rule nth_mem)
  then have mj: "xs ! j \<in> set ys" by (simp only: sets)
  from mi [unfolded in_set_conv_nth] obtain p where p: "p < length ys" "ys ! p = xs ! i"
    by blast
  from mj [unfolded in_set_conv_nth] obtain q where q: "q < length ys" "ys ! q = xs ! j"
    by blast
  from neq p(2) q(2) have "p \<noteq> q" by auto
  then have "p < q \<or> q < p" by arith
  then show ?thesis
  proof
    assume "p < q"
    from sorted_wrt_nth_less [OF chain this q(1)] p(2) q(2) show ?thesis by simp
  next
    assume "q < p"
    from sorted_wrt_nth_less [OF chain this p(1)] p(2) q(2) show ?thesis by simp
  qed
qed

lemma loadingPhases_by_lorry:
  assumes "schedules g = map (\<lambda>j. \<lparr>id_lorry = j + 1,
       trips = withoutFinalPhase (tripsOfLorry h j ds)\<rparr>) [0..<n]"
  shows "loadingPhases (schedules g)
     = concat (map (\<lambda>j. map (\<lambda>d. \<lparr>start = loadStartTime d,
                                    end = loadStartTime d + loadTimeHours h, type = loading\<rparr>)
                           (filter (\<lambda>d. earliestLorryIdx d = j) ds)) [0..<n])"
proof -
  have one: "concat (map (filter (\<lambda>p. type p = loading)) (withoutFinalPhase (tripsOfLorry h j ds)))
      = map (\<lambda>d. \<lparr>start = loadStartTime d, end = loadStartTime d + loadTimeHours h,
                  type = loading\<rparr>) (filter (\<lambda>d. earliestLorryIdx d = j) ds)" for j
  proof -
    have "map (filter (\<lambda>p. type p = loading)) (withoutFinalPhase (tripsOfLorry h j ds))
        = map (filter (\<lambda>p. type p = loading)) (tripsOfLorry h j ds)"
      by (rule map_withoutFinalPhase) (auto dest!: tripsOfLorry_phases simp: tripPhases_loading)
    also have "\<dots> = map (\<lambda>d. [\<lparr>start = loadStartTime d,
        end = loadStartTime d + loadTimeHours h, type = loading\<rparr>])
        (filter (\<lambda>d. earliestLorryIdx d = j) ds)"
      by (simp add: tripsOfLorry_def tripPhases_loading)
    finally show ?thesis
      by (simp add: concat_map_singleton)
  qed
  show ?thesis
    by (simp add: loadingPhases_def assms comp_def one)
qed

lemma ganttChart_loading_disjoint:
  assumes L: "0 < loadTimeHours (hoursOf inputs adv)"
    and g: "ganttChart inputs r adv = Some g"
    and ab: "a < b" "b < length (loadingPhases (schedules g))"
  shows "end (loadingPhases (schedules g) ! a) \<le> start (loadingPhases (schedules g) ! b)
       \<or> end (loadingPhases (schedules g) ! b) \<le> start (loadingPhases (schedules g) ! a)"
proof (cases "lorriesNeeded r")
  case infinity
  with g have "schedules g = []" by (auto simp: ganttChart_def)
  with ab show ?thesis by (simp add: loadingPhases_def)
next
  case (enat n)
  show ?thesis
  proof (cases "n = 0")
    case True
    with enat g have "schedules g = []" by (auto simp: ganttChart_def)
    with ab show ?thesis by (simp add: loadingPhases_def)
  next
    case False
    let ?h = "hoursOf inputs adv"
    let ?log = "builderLog inputs r adv n"
    let ?phase = "\<lambda>d. \<lparr>start = loadStartTime d, end = loadStartTime d + loadTimeHours ?h,
        type = loading\<rparr>"
    let ?R = "\<lambda>p q :: TripPhase. end p \<le> start q"
    from False have n: "0 < n" by simp
    from ganttChart_schedules [OF enat n, of inputs adv] g
    have sch: "schedules g = map (\<lambda>j. \<lparr>id_lorry = j + 1,
           trips = withoutFinalPhase (tripsOfLorry ?h j ?log)\<rparr>) [0..<n]"
      by (auto simp: builderLog_def)
    have lorries: "\<forall>d\<in>set ?log. earliestLorryIdx d < n"
      by (blast dest: builderLog_lorries)
    have perm: "mset (loadingPhases (schedules g)) = mset (map ?phase ?log)"
      unfolding loadingPhases_by_lorry [OF sch] by (rule mset_concat_all [OF lorries])
    have "sorted_wrt (\<lambda>d e. loadEndTime d \<le> loadStartTime e) ?log"
      unfolding builderLog_def by (rule scheduleLog_chain) (use L in simp)
    then have "sorted_wrt (\<lambda>d e. ?R (?phase d) (?phase e)) ?log"
    proof (rule sorted_wrt_mono_rel [rotated])
      fix d e assume "d \<in> set ?log" and "loadEndTime d \<le> loadStartTime e"
      with builderLog_lorries [of d inputs r adv n]
      show "?R (?phase d) (?phase e)" by simp
    qed
    then have chain: "sorted_wrt ?R (map ?phase ?log)"
      by (simp add: sorted_wrt_map)
    have irrefl: "p \<noteq> q" if "p \<in> set (map ?phase ?log)" and "?R p q" for p q
    proof
      assume "p = q"
      with that(2) have "end p \<le> start p" by simp
      moreover from that(1) have "end p = start p + loadTimeHours ?h" by auto
      ultimately show False using L by simp
    qed
    from permuted_chain [of "loadingPhases (schedules g)" "map ?phase ?log" ?R a b,
        OF perm chain irrefl ab]
    show ?thesis .
  qed
qed

lemma scheduleTrip_appends:
  assumes "scheduleTrip h ls bay = Some (ls', bay')"
  shows "\<exists>i<length ls. \<exists>t. trips (ls' ! i) = trips (ls ! i) @ [t] \<and> t \<noteq> []
     \<and> type (hd t) = loading \<and> max (nextAvailableTime (ls ! i)) bay \<le> start (hd t)
     \<and> bay' = end (hd t)"
proof -
  from assms obtain d where d: "nextTrip h (map nextAvailableTime ls) bay = Some d"
    and bay': "bay' = loadEndTime d"
    and i: "earliestLorryIdx d < length ls"
    and ls': "ls' = ls[earliestLorryIdx d :=
            (ls ! earliestLorryIdx d)\<lparr>trips := trips (ls ! earliestLorryIdx d)
                                           @ [tripPhases h (loadStartTime d)],
                                       nextAvailableTime := lorryReturnTime h d\<rparr>]"
    by (rule scheduleTrip_Some)
  note D = nextTrip_Some(4,5) [OF d]
  let ?i = "earliestLorryIdx d"
  let ?t = "tripPhases h (loadStartTime d)"
  have "trips (ls' ! ?i) = trips (ls ! ?i) @ [?t]"
    using i by (simp add: ls')
  moreover have "?t \<noteq> []" by (simp add: tripPhases_def Let_def)
  moreover have "type (hd ?t) = loading" by (simp add: tripPhases_hd)
  moreover have "max (nextAvailableTime (ls ! ?i)) bay \<le> start (hd ?t)"
    using D(1) i by (simp add: tripPhases_hd)
  moreover have "bay' = end (hd ?t)"
    using D(2) bay' by (simp add: tripPhases_hd)
  ultimately show ?thesis using i by blast
qed

section \<open>The schedule of scenario A\<close>

lemma scenarioA_tripsLog: "tripsLog hoursA 3 15 (replicate 8 0) 0 = logA"
  by (simp add: dispatch_eval hoursA_def logA_def eval_nat_numeral)

lemma scenarioA_solverLog: "solverLog scenarioA defaultSettings 8 = logA"
  by (simp add: solverLog_def scenarioA_hours scenarioA_trips scenarioA_fields
      scenarioA_tripsLog)

lemma resultA_fields: "lorriesNeeded resultA = enat 8" "totalTripsNeeded resultA = 15"
  by (simp_all add: resultA_def numeral_eq_enat)

lemma scenarioA_gantt: "ganttChart scenarioA resultA defaultSettings = Some ganttA"
  by (simp add: ganttChart_def resultA_fields scenarioA_hours scenarioA_fields
      lorriesAtStart_def scheduleTrip_def scheduleChoice_def tripPhases_def
      dropFinalReturn_def calculatedMaxTime_def LorrySchedule.truncate_def
      ganttA_def tripA_def lastTripA_def hoursA_def Let_def eval_nat_numeral upt_rec)

lemma ganttA_first_lorry:
  "schedules ganttA ! 0 = \<lparr>id_lorry = 1, trips = [tripA 0 (1 / 6) (151 / 186) (111 / 124) (191 / 124),
         lastTripA (191 / 124) (635 / 372) (875 / 372) (151 / 62)]\<rparr>"
  by (simp add: ganttA_def)

lemma choice_example:
  "nextTrip hoursA [1 / 6, 0] (1 / 6)
     = Some \<lparr>earliestLorryIdx = 1, loadStartTime = 1 / 6, loadEndTime = 1 / 3\<rparr>"
  by (simp add: nextTrip_def hoursA_def)

lemma ganttA_loading:
  "loadingPhases (schedules ganttA) ! 1 = \<lparr>start = 191 / 124, end = 635 / 372, type = loading\<rparr>"
  "loadingPhases (schedules ganttA) ! 2 = \<lparr>start = 1 / 6, end = 1 / 3, type = loading\<rparr>"
  "length (loadingPhases (schedules ganttA)) = 15"
  by (simp_all add: loadingPhases_def ganttA_def tripA_def lastTripA_def)

lemma first_trip_example:
  "scheduleTrip hoursA (lorriesAtStart 1) 0
     = Some ([\<lparr>id_lorry = 1, trips = [tripA 0 (1 / 6) (151 / 186) (111 / 124) (191 / 124)],
               nextAvailableTime = 191 / 124\<rparr>], 1 / 6)"
  by (simp add: lorriesAtStart_def scheduleTrip_def scheduleChoice_def tripPhases_def tripA_def
      hoursA_def Let_def)

section \<open>The schedule builder against the solver\<close>

text \<open>
  C3. For a feasible solve with fleet size \<open>n\<close>, the schedule builder run on the solver's
  result returns a schedule; its loop takes, trip by trip, the decisions of the solver's
  successful attempt (the same lorry, the same load start and load end), which dispatched
  every trip; the trips of the lorry with id \<open>j + 1\<close> start with loading phases over
  exactly the intervals the solver gave the lorry at index \<open>j\<close>, in order; every trip of
  the schedule starts with a loading phase that ends within the window plus 0.0001. The
  lorry chosen is one with the least next-available time, and the first such in the array.
\<close>

theorem schedule_follows_solver:
  assumes "\<not> degenerate inputs adv" and "calculationResult inputs adv = Some r"
    and "lorriesNeeded r = enat n"
  shows "\<exists>g. ganttChart inputs r adv = Some g
     \<and> builderLog inputs r adv n = solverLog inputs adv n
     \<and> int (length (solverLog inputs adv n)) = max 0 (totalTripsNeeded r)
     \<and> length (schedules g) = n
     \<and> (\<forall>j<n. id_lorry (schedules g ! j) = j + 1
           \<and> map (\<lambda>t. (start (hd t), end (hd t))) (trips (schedules g ! j))
               = map (\<lambda>d. (loadStartTime d, loadEndTime d))
                   (filter (\<lambda>d. earliestLorryIdx d = j) (solverLog inputs adv n)))
     \<and> (\<forall>s\<in>set (schedules g). \<forall>t\<in>set (trips s).
           t \<noteq> [] \<and> type (hd t) = loading \<and> end (hd t) \<le> time inputs + 0.0001)
     \<and> (\<forall>p\<in>set (loadingPhases (schedules g)). end p \<le> time inputs + 0.0001)
     \<and> (\<forall>ls bay. scheduleChoice (hoursOf inputs adv) ls bay
           = nextTrip (hoursOf inputs adv) (map nextAvailableTime ls) bay)
     \<and> (\<forall>lorries bay d. nextTrip (hoursOf inputs adv) lorries bay = Some d \<longrightarrow>
           earliestLorryIdx d < length lorries
           \<and> (\<forall>x\<in>set lorries. lorries ! earliestLorryIdx d \<le> x)
           \<and> (\<forall>i<earliestLorryIdx d. lorries ! earliestLorryIdx d < lorries ! i))"
proof -
  let ?h = "hoursOf inputs adv"
  let ?k = "nat (totalTripsNeeded r)"
  let ?log = "solverLog inputs adv n"
  note F = feasible_solve [OF assms]
  from F(1) have n: "0 < n" by simp
  from scheduleLog_tripsLog [OF F(3)]
  have same: "builderLog inputs r adv n = ?log" and all: "length ?log = ?k"
    by (simp_all add: builderLog_def solverLog_def lorriesAtStart_times F(2))
  from ganttChart_schedules [OF assms(3) n, of inputs adv] obtain g where
    g: "ganttChart inputs r adv = Some g"
    and sch: "schedules g = map (\<lambda>j. \<lparr>id_lorry = j + 1,
           trips = withoutFinalPhase (tripsOfLorry ?h j ?log)\<rparr>) [0..<n]"
    using same by (auto simp: builderLog_def)
  have entry: "earliestLorryIdx d < n \<and> loadEndTime d = loadStartTime d + loadTimeHours ?h
      \<and> loadEndTime d \<le> time inputs + 0.0001" if "d \<in> set ?log" for d
    using tripsLog_entries [of d ?h "time inputs" "nat (tripsNeeded inputs adv)" "replicate n 0" 0]
      that by (simp add: solverLog_def)
  have heads: "map (\<lambda>t. (start (hd t), end (hd t))) (trips (schedules g ! j))
      = map (\<lambda>d. (loadStartTime d, loadEndTime d)) (filter (\<lambda>d. earliestLorryIdx d = j) ?log)"
    if j: "j < n" for j
  proof -
    have "map (\<lambda>t. (start (hd t), end (hd t))) (withoutFinalPhase (tripsOfLorry ?h j ?log))
        = map (\<lambda>t. (start (hd t), end (hd t))) (tripsOfLorry ?h j ?log)"
      by (rule map_withoutFinalPhase) (auto dest!: tripsOfLorry_phases simp: tripPhases_hd)
    also have "\<dots> = map (\<lambda>d. (loadStartTime d, loadEndTime d))
        (filter (\<lambda>d. earliestLorryIdx d = j) ?log)"
      using entry by (simp add: tripsOfLorry_def tripPhases_hd)
    finally show ?thesis using j by (simp add: sch)
  qed
  have first: "t \<noteq> [] \<and> type (hd t) = loading \<and> end (hd t) \<le> time inputs + 0.0001"
    if s: "s \<in> set (schedules g)" and t: "t \<in> set (trips s)" for s t
  proof -
    from s obtain j where "trips s = withoutFinalPhase (tripsOfLorry ?h j ?log)"
      by (auto simp: sch)
    with t obtain i where i: "i < length (tripsOfLorry ?h j ?log)"
      and ti: "t = withoutFinalPhase (tripsOfLorry ?h j ?log) ! i"
      by (auto simp: in_set_conv_nth)
    from tripsOfLorry_nth [OF i] obtain d where d: "d \<in> set ?log"
      and td: "tripsOfLorry ?h j ?log ! i = tripPhases ?h (loadStartTime d)"
      by blast
    from ti i td have "t = tripPhases ?h (loadStartTime d)
        \<or> t = butlast (tripPhases ?h (loadStartTime d))"
      by (simp add: withoutFinalPhase_nth)
    then have "hd t = \<lparr>start = loadStartTime d, end = loadStartTime d + loadTimeHours ?h,
        type = loading\<rparr> \<and> t \<noteq> []"
      by (auto simp: tripPhases_hd) (simp_all add: tripPhases_def Let_def)
    with entry [OF d] show ?thesis by simp
  qed
  have policy: "earliestLorryIdx d < length lorries
           \<and> (\<forall>x\<in>set lorries. lorries ! earliestLorryIdx d \<le> x)
           \<and> (\<forall>i<earliestLorryIdx d. lorries ! earliestLorryIdx d < lorries ! i)"
    if d: "nextTrip ?h lorries bay = Some d" for lorries bay d
  proof -
    note D = nextTrip_Some [OF d]
    have "lorries ! earliestLorryIdx d < lorries ! i" if "i < earliestLorryIdx d" for i
    proof -
      from that D(1) have "lorries ! i \<in> set lorries" by simp
      with D(2) have "lorries ! earliestLorryIdx d \<le> lorries ! i" by blast
      moreover from D(3) that have "lorries ! i \<noteq> lorries ! earliestLorryIdx d" by blast
      ultimately show ?thesis by simp
    qed
    with D(1,2) show ?thesis by blast
  qed
  have loads: "end p \<le> time inputs + 0.0001" if "p \<in> set (loadingPhases (schedules g))" for p
  proof -
    from that obtain d where "d \<in> set ?log"
      and "p = \<lparr>start = loadStartTime d, end = loadStartTime d + loadTimeHours ?h,
          type = loading\<rparr>"
      unfolding loadingPhases_by_lorry [OF sch] by auto
    with entry [of d] show ?thesis by simp
  qed
  have "int (length ?log) = max 0 (totalTripsNeeded r)"
    using all by simp
  with g same sch heads first loads policy show ?thesis
    by (auto simp: scheduleChoice_nextTrip)
qed

theorem schedule_follows_solver_witness:
  "\<not> degenerate scenarioA defaultSettings
   \<and> calculationResult scenarioA defaultSettings = Some resultA
   \<and> lorriesNeeded resultA = enat 8
   \<and> ganttChart scenarioA resultA defaultSettings = Some ganttA
   \<and> builderLog scenarioA resultA defaultSettings 8 = logA
   \<and> solverLog scenarioA defaultSettings 8 = logA
   \<and> length logA = 15 \<and> length (schedules ganttA) = 8
   \<and> id_lorry (schedules ganttA ! 0) = 1
   \<and> map (\<lambda>t. (start (hd t), end (hd t))) (trips (schedules ganttA ! 0))
       = [(0, 1 / 6), (191 / 124, 635 / 372)]
   \<and> map (\<lambda>d. (loadStartTime d, loadEndTime d)) (filter (\<lambda>d. earliestLorryIdx d = 0) logA)
       = [(0, 1 / 6), (191 / 124, 635 / 372)]
   \<and> end (loadingPhases (schedules ganttA) ! 1) \<le> time scenarioA + 0.0001
   \<and> nextTrip hoursA [1 / 6, 0] (1 / 6)
       = Some \<lparr>earliestLorryIdx = 1, loadStartTime = 1 / 6, loadEndTime = 1 / 3\<rparr>
   \<and> [1 / 6, 0 :: real] ! 1 < [1 / 6, 0] ! 0"
proof -
  from schedule_follows_solver [OF scenarioA_not_degenerate scenarioA_result resultA_fields(1)]
  obtain g where g: "ganttChart scenarioA resultA defaultSettings = Some g"
    and logs: "builderLog scenarioA resultA defaultSettings 8 = solverLog scenarioA defaultSettings 8"
    and len: "length (schedules g) = 8"
    and each: "\<forall>j<8. id_lorry (schedules g ! j) = j + 1
           \<and> map (\<lambda>t. (start (hd t), end (hd t))) (trips (schedules g ! j))
               = map (\<lambda>d. (loadStartTime d, loadEndTime d))
                   (filter (\<lambda>d. earliestLorryIdx d = j) (solverLog scenarioA defaultSettings 8))"
    and loads: "\<forall>p\<in>set (loadingPhases (schedules g)). end p \<le> time scenarioA + 0.0001"
    and policy: "\<forall>lorries bay d. nextTrip (hoursOf scenarioA defaultSettings) lorries bay = Some d \<longrightarrow>
           earliestLorryIdx d < length lorries
           \<and> (\<forall>x\<in>set lorries. lorries ! earliestLorryIdx d \<le> x)
           \<and> (\<forall>i<earliestLorryIdx d. lorries ! earliestLorryIdx d < lorries ! i)"
    by blast
  from g have eq: "g = ganttA" by (simp add: scenarioA_gantt)
  from each have first: "id_lorry (schedules g ! 0) = 1"
    "map (\<lambda>t. (start (hd t), end (hd t))) (trips (schedules g ! 0))
       = map (\<lambda>d. (loadStartTime d, loadEndTime d))
           (filter (\<lambda>d. earliestLorryIdx d = 0) (solverLog scenarioA defaultSettings 8))"
    by simp_all
  from policy choice_example have "[1 / 6, 0 :: real] ! 1 < [1 / 6, 0] ! 0"
    unfolding scenarioA_hours by fastforce
  moreover have "map (\<lambda>d. (loadStartTime d, loadEndTime d))
      (filter (\<lambda>d. earliestLorryIdx d = 0) logA) = [(0, 1 / 6), (191 / 124, 635 / 372)]"
    by (simp add: logA_def)
  moreover have "length logA = 15" by (simp add: logA_def)
  moreover have "end (loadingPhases (schedules ganttA) ! 1) \<le> time scenarioA + 0.0001"
  proof -
    have "loadingPhases (schedules ganttA) ! 1 \<in> set (loadingPhases (schedules ganttA))"
      by (rule nth_mem) (simp add: ganttA_loading)
    with loads show ?thesis unfolding eq by blast
  qed
  ultimately show ?thesis
    using first logs len scenarioA_not_degenerate scenarioA_result resultA_fields(1)
      scenarioA_gantt choice_example
    unfolding eq scenarioA_solverLog
    by simp
qed

text \<open>
  C9. For a feasible solve with fleet size \<open>n\<close> (of a job whose material is not negative),
  the schedule has \<open>n\<close> entries with the ids 1 to \<open>n\<close> in this order; the trips of all
  entries number \<open>totalTripsNeeded\<close>; the phases of every trip are loading, travel,
  tipping, travel, each ending where the next starts, but for the last trip of each
  lorry, which has lost its return travel.
\<close>

theorem schedule_is_consistent:
  assumes "\<not> degenerate inputs adv" and "calculationResult inputs adv = Some r"
    and "lorriesNeeded r = enat n" and "0 \<le> material inputs"
  shows "\<exists>g. ganttChart inputs r adv = Some g
     \<and> length (schedules g) = n
     \<and> map id_lorry (schedules g) = [1..<Suc n]
     \<and> int (sum_list (map (\<lambda>s. length (trips s)) (schedules g))) = totalTripsNeeded r
     \<and> (\<forall>s\<in>set (schedules g). \<forall>i<length (trips s).
           map type (trips s ! i)
             = (if Suc i = length (trips s) then [loading, travel, tipping]
                else [loading, travel, tipping, travel])
           \<and> (\<forall>p. Suc p < length (trips s ! i) \<longrightarrow>
                 end (trips s ! i ! p) = start (trips s ! i ! Suc p)))"
proof -
  let ?h = "hoursOf inputs adv"
  let ?log = "builderLog inputs r adv n"
  note F = feasible_solve [OF assms(1-3)]
  from F(1) have n: "0 < n" by simp
  from ganttChart_schedules [OF assms(3) n, of inputs adv] obtain g where
    g: "ganttChart inputs r adv = Some g"
    and sch: "schedules g = map (\<lambda>j. \<lparr>id_lorry = j + 1,
           trips = withoutFinalPhase (tripsOfLorry ?h j ?log)\<rparr>) [0..<n]"
    by (auto simp: builderLog_def)
  have ids: "map id_lorry (schedules g) = [1..<Suc n]"
    by (simp add: sch comp_def map_Suc_upt)
  have "0 \<le> material inputs / lorryCapacity adv"
    using assms(1,4) by (simp add: degenerate_def)
  then have nonneg: "0 \<le> totalTripsNeeded r"
    by (simp add: F(2) tripsNeeded_def)
  have "length ?log = nat (totalTripsNeeded r)"
    using scheduleLog_tripsLog [OF F(3)] by (simp add: builderLog_def)
  moreover have "sum_list (map (\<lambda>s. length (trips s)) (schedules g)) = length ?log"
    by (rule schedule_trip_count [OF sch]) (blast dest: builderLog_lorries)
  ultimately have count: "int (sum_list (map (\<lambda>s. length (trips s)) (schedules g)))
      = totalTripsNeeded r"
    using nonneg by simp
  have shape: "map type (trips s ! i)
             = (if Suc i = length (trips s) then [loading, travel, tipping]
                else [loading, travel, tipping, travel])
           \<and> (\<forall>p. Suc p < length (trips s ! i) \<longrightarrow>
                 end (trips s ! i ! p) = start (trips s ! i ! Suc p))"
    if s: "s \<in> set (schedules g)" and i: "i < length (trips s)" for s i
  proof -
    from s obtain j where ts: "trips s = withoutFinalPhase (tripsOfLorry ?h j ?log)"
      by (auto simp: sch)
    with i have i': "i < length (tripsOfLorry ?h j ?log)" by simp
    from i' have "tripsOfLorry ?h j ?log ! i \<in> set (tripsOfLorry ?h j ?log)"
      by (rule nth_mem)
    from tripsOfLorry_phases [OF this]
    obtain s0 where td: "tripsOfLorry ?h j ?log ! i = tripPhases ?h s0" ..
    let ?t = "tripPhases ?h s0"
    have nth: "trips s ! i = (if Suc i = length (trips s) then butlast ?t else ?t)"
      using i' td by (simp add: ts withoutFinalPhase_nth)
    have types: "map type (trips s ! i)
             = (if Suc i = length (trips s) then [loading, travel, tipping]
                else [loading, travel, tipping, travel])"
      unfolding nth by (simp add: tripPhases_def Let_def)
    have "end (trips s ! i ! p) = start (trips s ! i ! Suc p)"
      if p: "Suc p < length (trips s ! i)" for p
    proof (cases "Suc i = length (trips s)")
      case True
      with p have "Suc p < length (butlast ?t)" by (simp add: nth)
      then have "Suc p < length ?t" "p < length (butlast ?t)" by simp_all
      with True \<open>Suc p < length (butlast ?t)\<close> show ?thesis
        using tripPhases_contiguous [of p ?h s0]
        by (simp add: nth nth_butlast)
    next
      case False
      with p show ?thesis
        using tripPhases_contiguous [of p ?h s0] by (simp add: nth)
    qed
    with types show ?thesis by blast
  qed
  have len: "length (schedules g) = n"
    by (simp add: sch)
  from g len ids count shape show ?thesis
    by blast
qed

theorem schedule_is_consistent_witness:
  "\<not> degenerate scenarioA defaultSettings
   \<and> calculationResult scenarioA defaultSettings = Some resultA
   \<and> lorriesNeeded resultA = enat 8 \<and> 0 \<le> material scenarioA
   \<and> ganttChart scenarioA resultA defaultSettings = Some ganttA
   \<and> length (schedules ganttA) = 8
   \<and> map id_lorry (schedules ganttA) = [1, 2, 3, 4, 5, 6, 7, 8]
   \<and> int (sum_list (map (\<lambda>s. length (trips s)) (schedules ganttA))) = totalTripsNeeded resultA
   \<and> totalTripsNeeded resultA = 15
   \<and> map type (trips (schedules ganttA ! 0) ! 0) = [loading, travel, tipping, travel]
   \<and> map type (trips (schedules ganttA ! 0) ! 1) = [loading, travel, tipping]
   \<and> end (trips (schedules ganttA ! 0) ! 0 ! 0) = start (trips (schedules ganttA ! 0) ! 0 ! 1)"
proof -
  have m: "0 \<le> material scenarioA" by (simp add: scenarioA_fields)
  from schedule_is_consistent [OF scenarioA_not_degenerate scenarioA_result resultA_fields(1) m]
  obtain g where g: "ganttChart scenarioA resultA defaultSettings = Some g"
    and len: "length (schedules g) = 8"
    and ids: "map id_lorry (schedules g) = [1..<Suc 8]"
    and count: "int (sum_list (map (\<lambda>s. length (trips s)) (schedules g))) = totalTripsNeeded resultA"
    by blast
  from g have eq: "g = ganttA" by (simp add: scenarioA_gantt)
  have "[1..<Suc 8] = [1, 2, 3, 4, 5, 6, 7, 8]"
    by (simp add: upt_rec)
  moreover have "map type (trips (schedules ganttA ! 0) ! 0) = [loading, travel, tipping, travel]"
    "map type (trips (schedules ganttA ! 0) ! 1) = [loading, travel, tipping]"
    "end (trips (schedules ganttA ! 0) ! 0 ! 0) = start (trips (schedules ganttA ! 0) ! 0 ! 1)"
    by (simp_all add: ganttA_first_lorry tripA_def lastTripA_def)
  ultimately show ?thesis
    using len ids count m scenarioA_not_degenerate scenarioA_result resultA_fields scenarioA_gantt
    unfolding eq by simp
qed

text \<open>
  C4. With a positive load duration, in every run of the solver's dispatch loop and
  in every schedule the builder returns, loading intervals do not overlap: in the
  solver's log each load end is no later than every later load start; any two loading
  phases of a schedule are one after the other. In both loops a trip starts loading no
  earlier than its lorry is available and no earlier than the bay is free.
\<close>

theorem loading_bay_exclusive:
  assumes "0 < loadTime inputs"
  shows "(\<forall>window k lorries bay a b.
            a < b \<and> b < length (tripsLog (hoursOf inputs adv) window k lorries bay) \<longrightarrow>
            loadEndTime (tripsLog (hoursOf inputs adv) window k lorries bay ! a)
              \<le> loadStartTime (tripsLog (hoursOf inputs adv) window k lorries bay ! b))
       \<and> (\<forall>lorries bay d. nextTrip (hoursOf inputs adv) lorries bay = Some d \<longrightarrow>
            earliestLorryIdx d < length lorries
            \<and> max (lorries ! earliestLorryIdx d) bay \<le> loadStartTime d)
       \<and> (\<forall>r g a b. ganttChart inputs r adv = Some g
              \<and> a < b \<and> b < length (loadingPhases (schedules g)) \<longrightarrow>
            end (loadingPhases (schedules g) ! a) \<le> start (loadingPhases (schedules g) ! b)
            \<or> end (loadingPhases (schedules g) ! b) \<le> start (loadingPhases (schedules g) ! a))
       \<and> (\<forall>ls bay ls' bay'. scheduleTrip (hoursOf inputs adv) ls bay = Some (ls', bay') \<longrightarrow>
            (\<exists>i<length ls. \<exists>t. trips (ls' ! i) = trips (ls ! i) @ [t] \<and> t \<noteq> []
               \<and> type (hd t) = loading
               \<and> max (nextAvailableTime (ls ! i)) bay \<le> start (hd t)
               \<and> bay' = end (hd t)))"
proof -
  let ?h = "hoursOf inputs adv"
  from assms have L: "0 < loadTimeHours ?h" by (simp add: hoursOf_def)
  have solver: "\<forall>window k lorries bay a b.
            a < b \<and> b < length (tripsLog ?h window k lorries bay) \<longrightarrow>
            loadEndTime (tripsLog ?h window k lorries bay ! a)
              \<le> loadStartTime (tripsLog ?h window k lorries bay ! b)"
  proof (intro allI impI)
    fix window k lorries bay a b
    assume ab: "a < b \<and> b < length (tripsLog ?h window k lorries bay)"
    have "sorted_wrt (\<lambda>a b. loadEndTime a \<le> loadStartTime b) (tripsLog ?h window k lorries bay)"
      by (rule tripsLog_chain) (use L in simp)
    from sorted_wrt_nth_less [OF this] ab
    show "loadEndTime (tripsLog ?h window k lorries bay ! a)
              \<le> loadStartTime (tripsLog ?h window k lorries bay ! b)"
      by blast
  qed
  have choice: "\<forall>lorries bay d. nextTrip ?h lorries bay = Some d \<longrightarrow>
            earliestLorryIdx d < length lorries
            \<and> max (lorries ! earliestLorryIdx d) bay \<le> loadStartTime d"
  proof (intro allI impI)
    fix lorries bay d
    assume "nextTrip ?h lorries bay = Some d"
    from nextTrip_Some(1,4) [OF this]
    show "earliestLorryIdx d < length lorries
            \<and> max (lorries ! earliestLorryIdx d) bay \<le> loadStartTime d"
      by simp
  qed
  have builder: "\<forall>r g a b. ganttChart inputs r adv = Some g
              \<and> a < b \<and> b < length (loadingPhases (schedules g)) \<longrightarrow>
            end (loadingPhases (schedules g) ! a) \<le> start (loadingPhases (schedules g) ! b)
            \<or> end (loadingPhases (schedules g) ! b) \<le> start (loadingPhases (schedules g) ! a)"
  proof (intro allI impI)
    fix r g a b
    assume "ganttChart inputs r adv = Some g
              \<and> a < b \<and> b < length (loadingPhases (schedules g))"
    then have g: "ganttChart inputs r adv = Some g" and ab: "a < b"
      "b < length (loadingPhases (schedules g))"
      by simp_all
    show "end (loadingPhases (schedules g) ! a) \<le> start (loadingPhases (schedules g) ! b)
            \<or> end (loadingPhases (schedules g) ! b) \<le> start (loadingPhases (schedules g) ! a)"
      by (rule ganttChart_loading_disjoint [OF L g ab])
  qed
  have step: "\<forall>ls bay ls' bay'. scheduleTrip ?h ls bay = Some (ls', bay') \<longrightarrow>
            (\<exists>i<length ls. \<exists>t. trips (ls' ! i) = trips (ls ! i) @ [t] \<and> t \<noteq> []
               \<and> type (hd t) = loading
               \<and> max (nextAvailableTime (ls ! i)) bay \<le> start (hd t)
               \<and> bay' = end (hd t))"
    by (intro allI impI) (rule scheduleTrip_appends)
  show ?thesis
    by (rule conjI [OF solver conjI [OF choice conjI [OF builder step]]])
qed

theorem loading_bay_exclusive_witness:
  "0 < loadTime scenarioA
   \<and> tripsLog hoursA 3 15 (replicate 8 0) 0 = logA
   \<and> loadEndTime (logA ! 7) \<le> loadStartTime (logA ! 8)
   \<and> nextTrip hoursA [1 / 6, 0] (1 / 6)
       = Some \<lparr>earliestLorryIdx = 1, loadStartTime = 1 / 6, loadEndTime = 1 / 3\<rparr>
   \<and> max ([1 / 6, 0 :: real] ! 1) (1 / 6) \<le> 1 / 6
   \<and> ganttChart scenarioA resultA defaultSettings = Some ganttA
   \<and> end (loadingPhases (schedules ganttA) ! 2) \<le> start (loadingPhases (schedules ganttA) ! 1)
   \<and> scheduleTrip hoursA (lorriesAtStart 1) 0
       = Some ([\<lparr>id_lorry = 1, trips = [tripA 0 (1 / 6) (151 / 186) (111 / 124) (191 / 124)],
                 nextAvailableTime = 191 / 124\<rparr>], 1 / 6)
   \<and> max (nextAvailableTime (lorriesAtStart 1 ! 0)) 0
       \<le> start (hd (tripA 0 (1 / 6) (151 / 186) (111 / 124) (191 / 124)))"
proof -
  have pos: "0 < loadTime scenarioA" by (simp add: scenarioA_fields)
  note inst = loading_bay_exclusive [OF pos, of defaultSettings, unfolded scenarioA_hours]
  from inst have "7 < (8::nat) \<and> 8 < length (tripsLog hoursA 3 15 (replicate 8 0) 0) \<longrightarrow>
      loadEndTime (tripsLog hoursA 3 15 (replicate 8 0) 0 ! 7)
        \<le> loadStartTime (tripsLog hoursA 3 15 (replicate 8 0) 0 ! 8)"
    by blast
  then have solver: "loadEndTime (logA ! 7) \<le> loadStartTime (logA ! 8)"
    unfolding scenarioA_tripsLog by (simp add: logA_def)
  from inst choice_example
  have choice: "max ([1 / 6, 0 :: real] ! 1) (1 / 6) \<le> 1 / 6"
    by fastforce
  from inst have "ganttChart scenarioA resultA defaultSettings = Some ganttA
      \<and> 1 < (2::nat) \<and> 2 < length (loadingPhases (schedules ganttA)) \<longrightarrow>
      end (loadingPhases (schedules ganttA) ! 1) \<le> start (loadingPhases (schedules ganttA) ! 2)
      \<or> end (loadingPhases (schedules ganttA) ! 2) \<le> start (loadingPhases (schedules ganttA) ! 1)"
    by blast
  then have builder: "end (loadingPhases (schedules ganttA) ! 2)
      \<le> start (loadingPhases (schedules ganttA) ! 1)"
    using ganttA_loading by (simp add: scenarioA_gantt)
  have step: "max (nextAvailableTime (lorriesAtStart 1 ! 0)) 0
       \<le> start (hd (tripA 0 (1 / 6) (151 / 186) (111 / 124) (191 / 124)))"
    by (simp add: lorriesAtStart_def tripA_def)
  from pos solver choice builder step show ?thesis
    using scenarioA_tripsLog choice_example scenarioA_gantt first_trip_example by simp
qed

end
